theory Spec2Isabelle
  imports Complex_Main "HOL-Library.Product_Lexorder"
begin

text \<open>
  A shallow embedding of the two React front ends of luum: \<^verbatim>\<open>web-simple/src/App.tsx\<close>
  (timed multi-shot capture run, ranking of the latest captures) and
  \<^verbatim>\<open>web/luum/src/App.tsx\<close> (settings list, setting update, capture button).

  Asynchronous functions are modelled by explicit state passing. Every effect that
  leaves the component (a timer, a state setter, an HTTP exchange) is appended to a
  trace, in the order in which the awaited steps complete. A rejected promise is a
  value \<open>Inl e\<close>. JavaScript numbers are modelled as rationals; for the constants of
  the source every product and quotient below is an integer that a double represents
  exactly.
\<close>

section \<open>Library functions used by the front ends\<close>

text \<open>
  \<^verbatim>\<open>sortBy\<close> of lodash: an ascending sort by the value of the iteratee which keeps
  elements with equal keys in their original order. Several iteratees are compared
  lexicographically, which is the order of pairs here.
\<close>

definition sortBy :: "'a list \<Rightarrow> ('a \<Rightarrow> 'k::linorder) \<Rightarrow> 'a list" where
  "sortBy collection iteratee = sort_key iteratee collection"

text \<open>
  The outcome of one HTTP exchange made through axios: the promise resolves, or it is
  rejected with an error object. Of that object the model keeps \<^verbatim>\<open>code\<close> (the empty
  string when there is none; \<^verbatim>\<open>ECONNABORTED\<close> for a request that timed out or was
  aborted) and the status of \<^verbatim>\<open>response\<close>, which is absent (\<open>None\<close>) when no answer
  arrived.
\<close>

datatype axios_error = Failure (error_code: string) (response_status: "nat option")

datatype axios_result = Resolved | Rejected axios_error

datatype error = AxiosError axios_error | TypeError

text \<open>
  \<^verbatim>\<open>axiosRetry(axios, {retries: 3})\<close> installs the axios-retry interceptor on the axios
  instance of web-simple. No \<^verbatim>\<open>retryCondition\<close> is passed, so the package default,
  \<^verbatim>\<open>isNetworkOrIdempotentRequestError\<close>, applies. For a request with an idempotent
  method, and every request of web-simple is a GET, it is the package's
  \<^verbatim>\<open>isRetryableError\<close>: the code of the error is not \<^verbatim>\<open>ECONNABORTED\<close>, and there is
  no response or its status is 5xx. Such a request is sent again, at most \<^verbatim>\<open>retries\<close>
  more times.
\<close>

record AxiosRetry =
  retries :: nat
  retryCondition :: "axios_error \<Rightarrow> bool"

definition isNetworkOrIdempotentRequestError :: "axios_error \<Rightarrow> bool" where
  "isNetworkOrIdempotentRequestError e =
     (error_code e \<noteq> ''ECONNABORTED'' \<and>
      (case response_status e of None \<Rightarrow> True | Some st \<Rightarrow> 500 \<le> st \<and> st \<le> 599))"

definition simple_axios :: AxiosRetry where
  "simple_axios = \<lparr>retries = 3, retryCondition = isNetworkOrIdempotentRequestError\<rparr>"

section \<open>web-simple: data\<close>

record Camera =
  name :: string
  port :: string
  summary :: string

record File =
  name :: string
  height :: int
  mtime :: int
  permissions :: int
  size_f :: int
  mimetype :: string
  width :: int

datatype Node = FileNode File | FolderNode string "Node list"

record Folder =
  name :: string
  children :: "Node list"

text \<open>The timing constants at the head of the module, gathered in one record.\<close>

record Config =
  PHOTO_TIME_INITIAL :: rat
  PHOTO_TIME_SUBSEQUENT :: rat
  PHOTO_POST_WAIT :: rat
  SPINNER_GRANULARITY :: nat
  NUM_PHOTOS :: nat

definition source_config :: Config where
  "source_config = \<lparr>PHOTO_TIME_INITIAL = 5000, PHOTO_TIME_SUBSEQUENT = 3000,
     PHOTO_POST_WAIT = 0, SPINNER_GRANULARITY = 10, NUM_PHOTOS = 3\<rparr>"

datatype event =
    Sleep rat
  | SetCountdownProgress rat
  | SetCountdownTotal rat
  | SetTriggerFileUpdate
  | GetCaptureImage string axios_result

text \<open>
  The state of the \<^verbatim>\<open>App\<close> component that the capture run reads and writes, the number
  of HTTP requests sent so far and the trace of effects.
\<close>

record App =
  cameras :: "Camera list option"
  triggerFileUpdate :: nat
  countdownProgress :: rat
  countdownTotal :: rat
  sent :: nat
  trace :: "event list"

section \<open>web-simple: the capture run\<close>

definition sleep :: "rat \<Rightarrow> App \<Rightarrow> App" where
  "sleep ms s = s\<lparr>trace := trace s @ [Sleep ms]\<rparr>"

definition setCountdownProgress :: "rat \<Rightarrow> App \<Rightarrow> App" where
  "setCountdownProgress v s =
     s\<lparr>countdownProgress := v, trace := trace s @ [SetCountdownProgress v]\<rparr>"

definition setCountdownTotal :: "rat \<Rightarrow> App \<Rightarrow> App" where
  "setCountdownTotal v s = s\<lparr>countdownTotal := v, trace := trace s @ [SetCountdownTotal v]\<rparr>"

definition setTriggerFileUpdate :: "App \<Rightarrow> App" where
  "setTriggerFileUpdate s =
     s\<lparr>triggerFileUpdate := triggerFileUpdate s + 1, trace := trace s @ [SetTriggerFileUpdate]\<rparr>"

text \<open>
  \<^verbatim>\<open>axios.get\<close> on the instance carrying the retry interceptor. The backend is a
  function from the number of the request to its outcome; the fourth argument counts
  the retries that are left.
\<close>

fun axios_get :: "AxiosRetry \<Rightarrow> (nat \<Rightarrow> axios_result) \<Rightarrow> (axios_result \<Rightarrow> event) \<Rightarrow> nat \<Rightarrow> App
    \<Rightarrow> (error + unit) \<times> App" where
  "axios_get ar backend req 0 s =
     (let r = backend (sent s);
          s' = s\<lparr>sent := sent s + 1, trace := trace s @ [req r]\<rparr>
      in case r of Resolved \<Rightarrow> (Inr (), s') | Rejected st \<Rightarrow> (Inl (AxiosError st), s'))"
| "axios_get ar backend req (Suc left) s =
     (let r = backend (sent s);
          s' = s\<lparr>sent := sent s + 1, trace := trace s @ [req r]\<rparr>
      in case r of
           Resolved \<Rightarrow> (Inr (), s')
         | Rejected st \<Rightarrow>
             if retryCondition ar st then axios_get ar backend req left s'
             else (Inl (AxiosError st), s'))"

text \<open>\<^verbatim>\<open>if (!cameras?.[0]?.port) return;\<close> and then the GET of \<^verbatim>\<open>/api/capture/image\<close>.\<close>

definition captureImage :: "AxiosRetry \<Rightarrow> (nat \<Rightarrow> axios_result) \<Rightarrow> App \<Rightarrow> (error + unit) \<times> App" where
  "captureImage ar backend s =
     (case cameras s of
        None \<Rightarrow> (Inr (), s)
      | Some [] \<Rightarrow> (Inr (), s)
      | Some (c # _) \<Rightarrow>
          if port c = '''' then (Inr (), s)
          else axios_get ar backend (GetCaptureImage (port c)) (retries ar) s)"

text \<open>The inner loop of a countdown: \<open>G\<close> times a sleep of \<open>D / G\<close> and a progress update.\<close>

function countdownLoop :: "rat \<Rightarrow> nat \<Rightarrow> nat \<Rightarrow> App \<Rightarrow> App" where
  "countdownLoop D G i s =
     (if i < G then
        countdownLoop D G (Suc i)
          (setCountdownProgress (D * (of_nat (i + 1) / of_nat G)) (sleep (D / of_nat G) s))
      else s)"
  by pat_completeness auto
termination
  by (relation "measure (\<lambda>(D, G, i, s). G - i)") simp_all

text \<open>
  The loop over the subsequent photos, \<^verbatim>\<open>for (let i = 0; i < NUM_PHOTOS - 1; i++)\<close>. A
  rejected capture leaves the loop at once.
\<close>

function photoLoop :: "Config \<Rightarrow> AxiosRetry \<Rightarrow> (nat \<Rightarrow> axios_result) \<Rightarrow> nat \<Rightarrow> App
    \<Rightarrow> (error + unit) \<times> App" where
  "photoLoop c ar backend i s =
     (if i < NUM_PHOTOS c - 1 then
        (let s1 = setCountdownProgress 0 s;
             s2 = setCountdownTotal (PHOTO_TIME_SUBSEQUENT c) s1;
             s3 = countdownLoop (PHOTO_TIME_SUBSEQUENT c) (SPINNER_GRANULARITY c) 0 s2
         in case captureImage ar backend s3 of
              (Inl e, s4) \<Rightarrow> (Inl e, s4)
            | (Inr _, s4) \<Rightarrow>
                photoLoop c ar backend (Suc i) (sleep (1000 + PHOTO_POST_WAIT c) s4))
      else (Inr (), s))"
  by pat_completeness auto
termination
proof (relation "measure (\<lambda>(c, ar, backend, i, s). NUM_PHOTOS c - 1 - i)")
  show "wf (measure (\<lambda>(c, ar, backend, i, s). NUM_PHOTOS c - 1 - i))" by simp
next
  fix c :: Config and ar :: AxiosRetry and backend :: "nat \<Rightarrow> axios_result" and i :: nat
    and s x2 :: App
  assume "i < NUM_PHOTOS c - 1"
  then show "((c, ar, backend, Suc i, sleep (1000 + PHOTO_POST_WAIT c) x2), c, ar, backend, i, s)
       \<in> measure (\<lambda>(c, ar, backend, i, s). NUM_PHOTOS c - 1 - i)" by simp
qed

text \<open>The effect that runs when \<^verbatim>\<open>triggerPhoto\<close> changes.\<close>

definition asyncEffect :: "Config \<Rightarrow> AxiosRetry \<Rightarrow> (nat \<Rightarrow> axios_result) \<Rightarrow> nat \<Rightarrow> App
    \<Rightarrow> (error + unit) \<times> App" where
  "asyncEffect c ar backend triggerPhoto s =
     (if triggerPhoto = 0 then (Inr (), s)
      else
        let s1 = setCountdownProgress 0 s;
            s2 = setCountdownTotal (PHOTO_TIME_INITIAL c) s1;
            s3 = countdownLoop (PHOTO_TIME_INITIAL c) (SPINNER_GRANULARITY c) 0 s2
        in case captureImage ar backend s3 of
             (Inl e, s4) \<Rightarrow> (Inl e, s4)
           | (Inr _, s4) \<Rightarrow>
               (case photoLoop c ar backend 0 (sleep (1000 + PHOTO_POST_WAIT c) s4) of
                  (Inl e, s5) \<Rightarrow> (Inl e, s5)
                | (Inr _, s5) \<Rightarrow>
                    (Inr (), setTriggerFileUpdate (sleep 3000
                       (setCountdownTotal 0 (setCountdownProgress 0 s5))))))"

section \<open>web-simple: the latest captures\<close>

fun recurseFiles :: "Node \<Rightarrow> string \<Rightarrow> (string \<times> File) list" where
  "recurseFiles (FileNode file) path =
     (if mimetype file = ''image/jpeg'' then [(path, file)] else [])"
| "recurseFiles (FolderNode fname cs) path =
     concat (map (\<lambda>c. recurseFiles c (path @ ''/'' @ fname)) cs)"

definition flatFiles :: "Folder \<Rightarrow> (string \<times> File) list" where
  "flatFiles cameraFiles = concat (map (\<lambda>c. recurseFiles c '''') (children cameraFiles))"

definition latestFiles :: "Folder option \<Rightarrow> (string \<times> File) list" where
  "latestFiles cameraFiles =
     take 3 (rev (case cameraFiles of
                    Some folder \<Rightarrow> sortBy (flatFiles folder) (\<lambda>e. mtime (snd e))
                  | None \<Rightarrow> []))"

text \<open>The depth-first, left-to-right listing of every file with its accumulated path.\<close>

fun dfs_files :: "Node \<Rightarrow> string \<Rightarrow> (string \<times> File) list" where
  "dfs_files (FileNode file) dir = [(dir, file)]"
| "dfs_files (FolderNode fname cs) dir =
     concat (map (\<lambda>c. dfs_files c (dir @ ''/'' @ fname)) cs)"

definition is_jpeg :: "string \<times> File \<Rightarrow> bool" where
  "is_jpeg e = (mimetype (snd e) = ''image/jpeg'')"

section \<open>web/luum: settings and capture button\<close>

text \<open>\<^verbatim>\<open>value: any\<close> of a setting, and the \<^verbatim>\<open>string | number\<close> handed to the callback.\<close>

datatype jsvalue = JString string | JNumber rat

record Setting =
  changed :: int
  id_f :: int
  info :: string
  label :: string
  name :: string
  path :: string
  readonly :: int
  type_f :: int
  value_f :: jsvalue
  choices :: "string list option"

datatype request =
    PutSetting string Setting axios_result
  | GetCapture string axios_result

text \<open>
  The state of \<^verbatim>\<open>SettingsList\<close> that the update callback writes, and the requests it
  has issued. The effect that fetches the settings depends on \<^verbatim>\<open>triggerRefresh\<close>: one
  increment of the counter is one new fetch of the list.
\<close>

record SettingsList =
  loading :: bool
  triggerRefresh :: nat
  issued :: "request list"

text \<open>What \<^verbatim>\<open>renderSetting\<close> returns; the first argument of a control is \<^verbatim>\<open>disabled\<close>.\<close>

datatype element =
    TextField bool jsvalue
  | Typography string
  | Checkbox bool bool
  | Select bool jsvalue "string list"
  | DateTimePicker bool jsvalue

fun truthy :: "jsvalue \<Rightarrow> bool" where
  "truthy (JString s) = (s \<noteq> '''')"
| "truthy (JNumber n) = (n \<noteq> 0)"

definition renderSetting :: "Setting \<Rightarrow> element option" where
  "renderSetting setting =
     (if type_f setting = 0 \<or> type_f setting = 1 then None
      else if type_f setting = 2 then Some (TextField (readonly setting \<noteq> 0) (value_f setting))
      else if type_f setting = 3 then Some (Typography ''TODO: Implement slider'')
      else if type_f setting = 4 then
        Some (Checkbox (readonly setting \<noteq> 0) (truthy (value_f setting)))
      else if type_f setting = 5 \<or> type_f setting = 6 then
        Some (Select (readonly setting \<noteq> 0) (value_f setting)
               (case choices setting of None \<Rightarrow> [] | Some cs \<Rightarrow> cs))
      else if type_f setting = 7 then Some (Typography ''TODO: Implement button'')
      else if type_f setting = 8 then
        Some (DateTimePicker (readonly setting \<noteq> 0) (value_f setting))
      else None)"

definition setLoading :: "bool \<Rightarrow> SettingsList \<Rightarrow> SettingsList" where
  "setLoading b s = s\<lparr>loading := b\<rparr>"

definition setTriggerRefresh :: "SettingsList \<Rightarrow> SettingsList" where
  "setTriggerRefresh s = s\<lparr>triggerRefresh := triggerRefresh s + 1\<rparr>"

text \<open>\<^verbatim>\<open>axios.put\<close> in web/luum, where no retry interceptor is installed: one exchange.\<close>

definition axios_put :: "(string \<Rightarrow> Setting \<Rightarrow> axios_result) \<Rightarrow> string \<Rightarrow> Setting \<Rightarrow> SettingsList
    \<Rightarrow> (error + unit) \<times> SettingsList" where
  "axios_put backend p payload s =
     (let r = backend p payload;
          s' = s\<lparr>issued := issued s @ [PutSetting p payload r]\<rparr>
      in case r of Resolved \<Rightarrow> (Inr (), s') | Rejected st \<Rightarrow> (Inl (AxiosError st), s'))"

text \<open>
  The callback handed to \<^verbatim>\<open>renderSetting\<close>. In the handler of the rejection,
  \<^verbatim>\<open>resp.status\<close> of an error without response raises a \<^verbatim>\<open>TypeError\<close>.
\<close>

definition onChange :: "Camera \<Rightarrow> Setting \<Rightarrow> (string \<Rightarrow> Setting \<Rightarrow> axios_result) \<Rightarrow> jsvalue
    \<Rightarrow> SettingsList \<Rightarrow> (error + unit) \<times> SettingsList" where
  "onChange camera setting backend newVal s =
     (if readonly setting \<noteq> 0 then (Inr (), s)
      else
        let s1 = setLoading True s;
            (r, s2) = axios_put backend (port camera) (setting\<lparr>value_f := newVal\<rparr>) s1
        in case r of
             Inr _ \<Rightarrow> (Inr (), setTriggerRefresh s2)
           | Inl TypeError \<Rightarrow> (Inl TypeError, s2)
           | Inl (AxiosError e) \<Rightarrow>
               (case response_status e of
                  None \<Rightarrow> (Inl TypeError, s2)
                | Some status \<Rightarrow>
                    if status \<noteq> 500 then (Inl (AxiosError e), s2)
                    else (Inr (), setTriggerRefresh s2)))"

text \<open>The click handler of the Capture button of \<^verbatim>\<open>CameraPane\<close>.\<close>

definition captureButton :: "Camera \<Rightarrow> (string \<Rightarrow> axios_result) \<Rightarrow> request list
    \<Rightarrow> (error + unit) \<times> request list" where
  "captureButton camera backend reqs =
     (let r = backend (port camera);
          reqs' = reqs @ [GetCapture (port camera) r]
      in case r of Resolved \<Rightarrow> (Inr (), reqs') | Rejected st \<Rightarrow> (Inl (AxiosError st), reqs'))"

text \<open>\<^verbatim>\<open>findIndex\<close> of lodash and \<^verbatim>\<open>Array.prototype.indexOf\<close>: the first position, or -1.\<close>

fun findIndex_from :: "'a list \<Rightarrow> ('a \<Rightarrow> bool) \<Rightarrow> int \<Rightarrow> int" where
  "findIndex_from [] P i = - 1"
| "findIndex_from (x # xs) P i = (if P x then i else findIndex_from xs P (i + 1))"

definition findIndex :: "'a list \<Rightarrow> ('a \<Rightarrow> bool) \<Rightarrow> int" where
  "findIndex xs P = findIndex_from xs P 0"

definition indexOf :: "'a list \<Rightarrow> 'a \<Rightarrow> int" where
  "indexOf xs x = findIndex xs (\<lambda>y. y = x)"

text \<open>\<^verbatim>\<open>const isFavorite = favorites.includes(setting.path)\<close>.\<close>

definition isFavorite :: "string list \<Rightarrow> Setting \<Rightarrow> bool" where
  "isFavorite favorites setting = (path setting \<in> set favorites)"

text \<open>The list that is rendered: \<^verbatim>\<open>sortBy(settings, [...])\<close> with its two iteratees.\<close>

definition sortedSettings :: "Setting list \<Rightarrow> string list \<Rightarrow> Setting list" where
  "sortedSettings settings favorites =
     sortBy settings
       (\<lambda>setting. (- indexOf favorites (path setting),
                    findIndex settings (\<lambda>s. id_f s = id_f setting)))"

section \<open>Vocabulary of the properties\<close>

text \<open>The events of the inner loop from tick \<open>i\<close> on, and of a whole countdown phase.\<close>

definition ticks :: "rat \<Rightarrow> nat \<Rightarrow> nat \<Rightarrow> event list" where
  "ticks D G i =
     concat (map (\<lambda>k. [Sleep (D / of_nat G), SetCountdownProgress (D * (of_nat (k + 1) / of_nat G))])
       [i..<G])"

definition countdown_phase :: "rat \<Rightarrow> nat \<Rightarrow> event list" where
  "countdown_phase D G = [SetCountdownProgress 0, SetCountdownTotal D] @ ticks D G 0"

text \<open>
  The camera a run captures with: the port of the first camera of the list, when the
  list is loaded and not empty and that port is not the empty string.
\<close>

definition selected_port :: "Camera list option \<Rightarrow> string option" where
  "selected_port cs =
     (case cs of
        None \<Rightarrow> None
      | Some [] \<Rightarrow> None
      | Some (c # _) \<Rightarrow> if port c = '''' then None else Some (port c))"

definition capture_events :: "string option \<Rightarrow> event list" where
  "capture_events sel = (case sel of None \<Rightarrow> [] | Some p \<Rightarrow> [GetCaptureImage p Resolved])"

definition shot_delay :: "Config \<Rightarrow> nat \<Rightarrow> rat" where
  "shot_delay c k = (if k = 0 then PHOTO_TIME_INITIAL c else PHOTO_TIME_SUBSEQUENT c)"

text \<open>Shot \<open>k\<close> of a run without failure: its countdown, its request, the wait after it.\<close>

definition shot_events :: "Config \<Rightarrow> string option \<Rightarrow> nat \<Rightarrow> event list" where
  "shot_events c sel k =
     countdown_phase (shot_delay c k) (SPINNER_GRANULARITY c) @ capture_events sel
       @ [Sleep (1000 + PHOTO_POST_WAIT c)]"

definition cooldown_events :: "event list" where
  "cooldown_events = [SetCountdownProgress 0, SetCountdownTotal 0, Sleep 3000, SetTriggerFileUpdate]"

definition run_events :: "Config \<Rightarrow> string option \<Rightarrow> event list" where
  "run_events c sel =
     concat (map (shot_events c sel) [0..<Suc (NUM_PHOTOS c - 1)]) @ cooldown_events"

fun is_capture :: "event \<Rightarrow> bool" where
  "is_capture (GetCaptureImage p r) = True"
| "is_capture e = False"

fun resolved_capture :: "event \<Rightarrow> bool" where
  "resolved_capture (GetCaptureImage p Resolved) = True"
| "resolved_capture e = False"

fun progress_samples :: "event list \<Rightarrow> rat list" where
  "progress_samples [] = []"
| "progress_samples (SetCountdownProgress v # es) = v # progress_samples es"
| "progress_samples (e # es) = progress_samples es"

text \<open>The events a step has added to the trace.\<close>

definition new_events :: "App \<Rightarrow> App \<Rightarrow> event list" where
  "new_events s s' = drop (length (trace s)) (trace s')"

text \<open>
  What comes after the wait that follows a capture: the whole countdown of the next
  shot, or the closing events and nothing after them.
\<close>

definition continues :: "Config \<Rightarrow> event list \<Rightarrow> bool" where
  "continues c es =
     (take (length (countdown_phase (PHOTO_TIME_SUBSEQUENT c) (SPINNER_GRANULARITY c))) es =
        countdown_phase (PHOTO_TIME_SUBSEQUENT c) (SPINNER_GRANULARITY c) \<or>
      es = cooldown_events)"

text \<open>A sleep of exactly \<open>d\<close>, and then at once the next countdown or the closing events.\<close>

definition waits_then_continues :: "rat \<Rightarrow> Config \<Rightarrow> event list \<Rightarrow> bool" where
  "waits_then_continues d c es =
     (case es of Sleep ms # rest \<Rightarrow> ms = d \<and> continues c rest | _ \<Rightarrow> False)"

text \<open>The events after every capture request that resolved satisfy \<open>Q\<close>.\<close>

fun after_each_capture :: "(event list \<Rightarrow> bool) \<Rightarrow> event list \<Rightarrow> bool" where
  "after_each_capture Q [] = True"
| "after_each_capture Q (e # es) =
     ((if resolved_capture e then Q es else True) \<and> after_each_capture Q es)"

text \<open>What one call of \<open>axios_get\<close> appends: rejected attempts, then at most one resolved one.\<close>

definition attempts :: "(axios_result \<Rightarrow> event) \<Rightarrow> axios_error list \<Rightarrow> bool \<Rightarrow> event list" where
  "attempts req rejected ok =
     map (\<lambda>st. req (Rejected st)) rejected @ (if ok then [req Resolved] else [])"

definition setting_key :: "Setting list \<Rightarrow> string list \<Rightarrow> Setting \<Rightarrow> int \<times> int" where
  "setting_key settings favorites setting =
     (- indexOf favorites (path setting), findIndex settings (\<lambda>s. id_f s = id_f setting))"

text \<open>The outcomes after which \<open>axios_get\<close> sends the request again, retries permitting.\<close>

fun retryable :: "AxiosRetry \<Rightarrow> axios_result \<Rightarrow> bool" where
  "retryable ar Resolved = False"
| "retryable ar (Rejected e) = retryCondition ar e"

text \<open>What the caller of an axios function receives for an outcome.\<close>

fun outcome :: "axios_result \<Rightarrow> error + unit" where
  "outcome Resolved = Inr ()"
| "outcome (Rejected e) = Inl (AxiosError e)"

text \<open>The outcomes of the PUT after which the settings are fetched again.\<close>

fun tolerated :: "axios_result \<Rightarrow> bool" where
  "tolerated Resolved = True"
| "tolerated (Rejected e) = (response_status e = Some 500)"

text \<open>The \<^verbatim>\<open>disabled\<close> property of a control; a \<^verbatim>\<open>Typography\<close> is no control.\<close>

fun disabled :: "element \<Rightarrow> bool option" where
  "disabled (TextField d v) = Some d"
| "disabled (Typography t) = None"
| "disabled (Checkbox d c) = Some d"
| "disabled (Select d v cs) = Some d"
| "disabled (DateTimePicker d v) = Some d"

section \<open>Concrete inputs\<close>

definition initial_state :: "Camera list option \<Rightarrow> App" where
  "initial_state cs = \<lparr>cameras = cs, triggerFileUpdate = 0, countdownProgress = 0, countdownTotal = 0,
     sent = 0, trace = []\<rparr>"

definition example_camera :: Camera where
  "example_camera = \<lparr>Camera.name = ''Nikon DSC D5200'', port = ''usb:001,004'', summary = ''''\<rparr>"

definition all_resolved :: "nat \<Rightarrow> axios_result" where
  "all_resolved k = Resolved"

definition second_request_404 :: "nat \<Rightarrow> axios_result" where
  "second_request_404 k =
     (if k = 1 then Rejected (Failure ''ERR_BAD_REQUEST'' (Some 404)) else Resolved)"

definition first_request_503 :: "nat \<Rightarrow> axios_result" where
  "first_request_503 k =
     (if k = 0 then Rejected (Failure ''ERR_BAD_RESPONSE'' (Some 503)) else Resolved)"

definition always_aborted :: "nat \<Rightarrow> axios_result" where
  "always_aborted k = Rejected (Failure ''ECONNABORTED'' None)"

definition always_503 :: "nat \<Rightarrow> axios_result" where
  "always_503 k = Rejected (Failure ''ERR_BAD_RESPONSE'' (Some 503))"

definition file_a :: File where
  "file_a = \<lparr>File.name = ''a.jpg'', height = 4000, mtime = 100, permissions = 0, size_f = 1,
     mimetype = ''image/jpeg'', width = 6000\<rparr>"

definition file_b :: File where
  "file_b = \<lparr>File.name = ''b.png'', height = 4000, mtime = 200, permissions = 0, size_f = 1,
     mimetype = ''image/png'', width = 6000\<rparr>"

definition file_c :: File where
  "file_c = \<lparr>File.name = ''c.jpg'', height = 4000, mtime = 300, permissions = 0, size_f = 1,
     mimetype = ''image/jpeg'', width = 6000\<rparr>"

definition file_d :: File where
  "file_d = \<lparr>File.name = ''d.jpg'', height = 4000, mtime = 100, permissions = 0, size_f = 1,
     mimetype = ''image/jpeg'', width = 6000\<rparr>"

text \<open>The hierarchy of scenario B: the fetched folder is \<^verbatim>\<open>DCIM\<close> with its three files.\<close>

definition scenario_b :: Folder where
  "scenario_b = \<lparr>Folder.name = ''DCIM'', children =
     [FileNode file_a, FileNode file_b, FileNode file_c]\<rparr>"

text \<open>The same folder as the one child of a fetched storage root.\<close>

definition dcim_under_root :: Folder where
  "dcim_under_root = \<lparr>Folder.name = ''/'', children =
     [FolderNode ''DCIM'' [FileNode file_a, FileNode file_b, FileNode file_c]]\<rparr>"

definition tie_folder :: Folder where
  "tie_folder = \<lparr>Folder.name = ''/'', children =
     [FolderNode ''DCIM'' [FileNode file_a, FileNode file_d]]\<rparr>"

definition setting_a :: Setting where
  "setting_a = \<lparr>changed = 0, id_f = 1, info = '''', label = ''ISO Speed'', Setting.name = ''iso'',
     path = ''/main/imgsettings/iso'', readonly = 0, type_f = 6, value_f = JString ''100'',
     choices = Some [''100'', ''200'', ''400'']\<rparr>"

definition setting_b :: Setting where
  "setting_b = \<lparr>changed = 0, id_f = 2, info = '''', label = ''Battery Level'',
     Setting.name = ''batterylevel'', path = ''/main/status/batterylevel'', readonly = 1,
     type_f = 2, value_f = JString ''75%'', choices = None\<rparr>"

definition luum_camera :: Camera where
  "luum_camera = \<lparr>Camera.name = ''Canon EOS 80D'', port = ''usb:001,005'', summary = ''''\<rparr>"

definition idle :: SettingsList where
  "idle = \<lparr>loading = False, triggerRefresh = 0, issued = []\<rparr>"

definition answers_500 :: "string \<Rightarrow> Setting \<Rightarrow> axios_result" where
  "answers_500 p payload = Rejected (Failure ''ERR_BAD_RESPONSE'' (Some 500))"

definition answers_400 :: "string \<Rightarrow> Setting \<Rightarrow> axios_result" where
  "answers_400 p payload = Rejected (Failure ''ERR_BAD_REQUEST'' (Some 400))"

definition no_response :: "string \<Rightarrow> Setting \<Rightarrow> axios_result" where
  "no_response p payload = Rejected (Failure ''ERR_NETWORK'' None)"

declare countdownLoop.simps [simp del]
declare photoLoop.simps [simp del]

section \<open>The capture run without failure\<close>

lemma countdownLoop_trace: "trace (countdownLoop D G i s) = trace s @ ticks D G i"
proof (induction D G i s rule: countdownLoop.induct)
  case (1 D G i s)
  show ?case
  proof (cases "i < G")
    case True
    then have "[i..<G] = i # [Suc i..<G]" by (simp add: upt_conv_Cons)
    with True "1.IH" show ?thesis
      by (simp add: countdownLoop.simps[of D G i] ticks_def sleep_def setCountdownProgress_def)
  next
    case False
    then show ?thesis by (simp add: countdownLoop.simps[of D G i] ticks_def)
  qed
qed

lemma countdownLoop_cameras: "cameras (countdownLoop D G i s) = cameras s"
proof (induction D G i s rule: countdownLoop.induct)
  case (1 D G i s)
  then show ?case
    by (cases "i < G") (simp_all add: countdownLoop.simps[of D G i] sleep_def setCountdownProgress_def)
qed

lemma countdownLoop_sent: "sent (countdownLoop D G i s) = sent s"
proof (induction D G i s rule: countdownLoop.induct)
  case (1 D G i s)
  then show ?case
    by (cases "i < G") (simp_all add: countdownLoop.simps[of D G i] sleep_def setCountdownProgress_def)
qed

lemma axios_get_resolved:
  "backend (sent s) = Resolved \<Longrightarrow>
   axios_get ar backend req left s = (Inr (), s\<lparr>sent := sent s + 1, trace := trace s @ [req Resolved]\<rparr>)"
  by (cases left) (simp_all add: Let_def)

lemma captureImage_none:
  "selected_port (cameras s) = None \<Longrightarrow> captureImage ar backend s = (Inr (), s)"
  by (auto simp: captureImage_def selected_port_def split: option.splits list.splits if_splits)

lemma captureImage_resolved:
  "selected_port (cameras s) = Some p \<Longrightarrow> backend (sent s) = Resolved \<Longrightarrow>
   captureImage ar backend s =
     (Inr (), s\<lparr>sent := sent s + 1, trace := trace s @ [GetCaptureImage p Resolved]\<rparr>)"
  by (auto simp: captureImage_def selected_port_def axios_get_resolved
      split: option.splits list.splits if_splits)

lemma captureImage_completes:
  assumes "selected_port (cameras s) = None \<or> (\<forall>k. backend k = Resolved)"
  shows "fst (captureImage ar backend s) = Inr ()"
    and "trace (snd (captureImage ar backend s)) = trace s @ capture_events (selected_port (cameras s))"
    and "cameras (snd (captureImage ar backend s)) = cameras s"
    and "sent (snd (captureImage ar backend s)) = sent s + length (capture_events (selected_port (cameras s)))"
proof -
  show "fst (captureImage ar backend s) = Inr ()"
  proof (cases "selected_port (cameras s)")
    case None then show ?thesis by (simp add: captureImage_none)
  next
    case (Some p) with assms show ?thesis by (simp add: captureImage_resolved)
  qed
  show "trace (snd (captureImage ar backend s)) = trace s @ capture_events (selected_port (cameras s))"
  proof (cases "selected_port (cameras s)")
    case None then show ?thesis by (simp add: captureImage_none capture_events_def)
  next
    case (Some p) with assms show ?thesis by (simp add: captureImage_resolved capture_events_def)
  qed
  show "cameras (snd (captureImage ar backend s)) = cameras s"
  proof (cases "selected_port (cameras s)")
    case None then show ?thesis by (simp add: captureImage_none)
  next
    case (Some p) with assms show ?thesis by (simp add: captureImage_resolved)
  qed
  show "sent (snd (captureImage ar backend s)) = sent s + length (capture_events (selected_port (cameras s)))"
  proof (cases "selected_port (cameras s)")
    case None then show ?thesis by (simp add: captureImage_none capture_events_def)
  next
    case (Some p) with assms show ?thesis by (simp add: captureImage_resolved capture_events_def)
  qed
qed

lemma shot_events_Suc:
  "shot_events c sel (Suc k) =
     countdown_phase (PHOTO_TIME_SUBSEQUENT c) (SPINNER_GRANULARITY c) @ capture_events sel
       @ [Sleep (1000 + PHOTO_POST_WAIT c)]"
  by (simp add: shot_events_def shot_delay_def)

lemma shot_events_0:
  "shot_events c sel 0 =
     countdown_phase (PHOTO_TIME_INITIAL c) (SPINNER_GRANULARITY c) @ capture_events sel
       @ [Sleep (1000 + PHOTO_POST_WAIT c)]"
  by (simp add: shot_events_def shot_delay_def)

lemma phase_state:
  assumes "s3 = countdownLoop D G 0 (setCountdownTotal D (setCountdownProgress 0 s))"
  shows "trace s3 = trace s @ countdown_phase D G"
    and "cameras s3 = cameras s"
    and "sent s3 = sent s"
  by (simp_all add: assms countdownLoop_trace countdownLoop_cameras countdownLoop_sent
      countdown_phase_def setCountdownTotal_def setCountdownProgress_def)

lemma photoLoop_completes:
  "selected_port (cameras s) = None \<or> (\<forall>k. backend k = Resolved) \<Longrightarrow>
   fst (photoLoop c ar backend i s) = Inr () \<and>
   trace (snd (photoLoop c ar backend i s)) =
     trace s @ concat (map (shot_events c (selected_port (cameras s))) [Suc i..<Suc (NUM_PHOTOS c - 1)]) \<and>
   cameras (snd (photoLoop c ar backend i s)) = cameras s \<and>
   sent (snd (photoLoop c ar backend i s)) =
     sent s + (NUM_PHOTOS c - 1 - i) * length (capture_events (selected_port (cameras s)))"
proof (induction c ar backend i s rule: photoLoop.induct)
  case (1 c ar backend i s)
  let ?sel = "selected_port (cameras s)"
  let ?D = "PHOTO_TIME_SUBSEQUENT c"
  let ?G = "SPINNER_GRANULARITY c"
  show ?case
  proof (cases "i < NUM_PHOTOS c - 1")
    case False
    then show ?thesis by (simp add: photoLoop.simps[of c ar backend i s])
  next
    case True
    define s3 where "s3 = countdownLoop ?D ?G 0 (setCountdownTotal ?D (setCountdownProgress 0 s))"
    define s4 where "s4 = snd (captureImage ar backend s3)"
    define s5 where "s5 = sleep (1000 + PHOTO_POST_WAIT c) s4"
    have s3: "trace s3 = trace s @ countdown_phase ?D ?G" "cameras s3 = cameras s" "sent s3 = sent s"
      by (rule phase_state[OF s3_def])+
    from "1.prems" s3(2) have ok3: "selected_port (cameras s3) = None \<or> (\<forall>k. backend k = Resolved)"
      by simp
    have cap: "fst (captureImage ar backend s3) = Inr ()"
      "trace s4 = trace s3 @ capture_events ?sel"
      "cameras s4 = cameras s"
      "sent s4 = sent s3 + length (capture_events ?sel)"
      using captureImage_completes[OF ok3, of ar] s3(2) by (simp_all add: s4_def)
    have eq: "captureImage ar backend s3 = (Inr (), s4)"
      using cap(1) by (simp add: s4_def prod_eq_iff)
    have s5: "trace s5 = trace s @ shot_events c ?sel (Suc i)" "cameras s5 = cameras s"
      "sent s5 = sent s + length (capture_events ?sel)"
      using cap s3 by (simp_all add: s5_def sleep_def shot_events_Suc)
    have step: "photoLoop c ar backend i s = photoLoop c ar backend (Suc i) s5"
      using True eq by (simp add: photoLoop.simps[of c ar backend i s] s3_def s5_def)
    from "1.prems" s5(2) have ok5: "selected_port (cameras s5) = None \<or> (\<forall>k. backend k = Resolved)"
      by simp
    have IH: "fst (photoLoop c ar backend (Suc i) s5) = Inr () \<and>
      trace (snd (photoLoop c ar backend (Suc i) s5)) =
        trace s5 @ concat (map (shot_events c (selected_port (cameras s5))) [Suc (Suc i)..<Suc (NUM_PHOTOS c - 1)]) \<and>
      cameras (snd (photoLoop c ar backend (Suc i) s5)) = cameras s5 \<and>
      sent (snd (photoLoop c ar backend (Suc i) s5)) =
        sent s5 + (NUM_PHOTOS c - 1 - Suc i) * length (capture_events (selected_port (cameras s5)))"
      using "1.IH"[OF True refl refl s3_def eq[symmetric] refl, folded s5_def, OF ok5] .
    from True have upt: "[Suc i..<Suc (NUM_PHOTOS c - 1)] = Suc i # [Suc (Suc i)..<Suc (NUM_PHOTOS c - 1)]"
      by (simp add: upt_conv_Cons)
    have sentarith: "(NUM_PHOTOS c - 1 - i) * n = n + (NUM_PHOTOS c - 1 - Suc i) * n" for n :: nat
    proof -
      from True have "NUM_PHOTOS c - 1 - i = Suc (NUM_PHOTOS c - 1 - Suc i)" by simp
      then show ?thesis by (simp only: mult_Suc)
    qed
    have c1: "fst (photoLoop c ar backend i s) = Inr ()"
      unfolding step using IH by simp
    have cc: "concat (map F [Suc i..<Suc (NUM_PHOTOS c - 1)]) =
        F (Suc i) @ concat (map F [Suc (Suc i)..<Suc (NUM_PHOTOS c - 1)])" for F :: "nat \<Rightarrow> event list"
      by (subst upt) simp
    have c2: "trace (snd (photoLoop c ar backend i s)) =
        trace s @ concat (map (shot_events c ?sel) [Suc i..<Suc (NUM_PHOTOS c - 1)])"
    proof -
      have "trace (snd (photoLoop c ar backend i s)) = trace (snd (photoLoop c ar backend (Suc i) s5))"
        by (simp only: step)
      also have "\<dots> = trace s5 @ concat (map (shot_events c ?sel) [Suc (Suc i)..<Suc (NUM_PHOTOS c - 1)])"
        using IH s5(2) by simp
      also have "\<dots> = trace s @ concat (map (shot_events c ?sel) [Suc i..<Suc (NUM_PHOTOS c - 1)])"
        by (simp only: s5(1) cc append_assoc)
      finally show ?thesis .
    qed
    have c3: "cameras (snd (photoLoop c ar backend i s)) = cameras s"
      unfolding step using IH s5 by simp
    have c4: "sent (snd (photoLoop c ar backend i s)) =
        sent s + (NUM_PHOTOS c - 1 - i) * length (capture_events ?sel)"
      unfolding step using IH s5 by (simp only: sentarith add.assoc)
    from c1 c2 c3 c4 show ?thesis by blast
  qed
qed

lemma new_eventsI: "trace s' = trace s @ evs \<Longrightarrow> new_events s s' = evs"
  by (simp add: new_events_def)

lemma asyncEffect_completes:
  assumes tp: "triggerPhoto \<noteq> 0"
    and ok: "selected_port (cameras s) = None \<or> (\<forall>k. backend k = Resolved)"
  shows "fst (asyncEffect c ar backend triggerPhoto s) = Inr ()"
    and "trace (snd (asyncEffect c ar backend triggerPhoto s)) =
           trace s @ run_events c (selected_port (cameras s))"
    and "sent (snd (asyncEffect c ar backend triggerPhoto s)) =
           sent s + Suc (NUM_PHOTOS c - 1) * length (capture_events (selected_port (cameras s)))"
proof -
  let ?sel = "selected_port (cameras s)"
  let ?D = "PHOTO_TIME_INITIAL c"
  let ?G = "SPINNER_GRANULARITY c"
  define s3 where "s3 = countdownLoop ?D ?G 0 (setCountdownTotal ?D (setCountdownProgress 0 s))"
  define s4 where "s4 = snd (captureImage ar backend s3)"
  define s5 where "s5 = sleep (1000 + PHOTO_POST_WAIT c) s4"
  define s6 where "s6 = snd (photoLoop c ar backend 0 s5)"
  define s7 where "s7 = setTriggerFileUpdate (sleep 3000 (setCountdownTotal 0 (setCountdownProgress 0 s6)))"
  have s3: "trace s3 = trace s @ countdown_phase ?D ?G" "cameras s3 = cameras s" "sent s3 = sent s"
    by (rule phase_state[OF s3_def])+
  from ok s3(2) have ok3: "selected_port (cameras s3) = None \<or> (\<forall>k. backend k = Resolved)"
    by simp
  have cap: "fst (captureImage ar backend s3) = Inr ()"
    "trace s4 = trace s3 @ capture_events ?sel"
    "cameras s4 = cameras s"
    "sent s4 = sent s3 + length (capture_events ?sel)"
    using captureImage_completes[OF ok3, of ar] s3(2) by (simp_all add: s4_def)
  have eq4: "captureImage ar backend s3 = (Inr (), s4)"
    using cap(1) by (simp add: s4_def prod_eq_iff)
  have s5: "trace s5 = trace s @ shot_events c ?sel 0" "cameras s5 = cameras s"
    "sent s5 = sent s + length (capture_events ?sel)"
    using cap s3 by (simp_all add: s5_def sleep_def shot_events_0)
  from ok s5(2) have ok5: "selected_port (cameras s5) = None \<or> (\<forall>k. backend k = Resolved)"
    by simp
  note loop = photoLoop_completes[OF ok5, of c ar 0]
  have eq6: "photoLoop c ar backend 0 s5 = (Inr (), s6)"
    using loop by (simp add: s6_def prod_eq_iff)
  have s6: "trace s6 = trace s @ concat (map (shot_events c ?sel) [0..<Suc (NUM_PHOTOS c - 1)])"
  proof -
    have "trace s6 = trace s5 @ concat (map (shot_events c ?sel) [Suc 0..<Suc (NUM_PHOTOS c - 1)])"
      using loop s5(2) by (simp add: s6_def)
    also have "\<dots> = trace s @ concat (map (shot_events c ?sel) (0 # [Suc 0..<Suc (NUM_PHOTOS c - 1)]))"
      by (simp only: s5(1) append_assoc list.map concat.simps)
    also have "0 # [Suc 0..<Suc (NUM_PHOTOS c - 1)] = [0..<Suc (NUM_PHOTOS c - 1)]"
      by (simp only: upt_conv_Cons[OF zero_less_Suc])
    finally show ?thesis .
  qed
  have sent6: "sent s6 = sent s + Suc (NUM_PHOTOS c - 1) * length (capture_events ?sel)"
    using loop s5(2,3) by (simp add: s6_def)
  have run: "asyncEffect c ar backend triggerPhoto s = (Inr (), s7)"
    using tp eq4 eq6
    by (simp add: asyncEffect_def s3_def[symmetric] s5_def[symmetric] s7_def Let_def)
  show "fst (asyncEffect c ar backend triggerPhoto s) = Inr ()"
    by (simp add: run)
  show "trace (snd (asyncEffect c ar backend triggerPhoto s)) = trace s @ run_events c ?sel"
    by (simp add: run s7_def s6 run_events_def cooldown_events_def setTriggerFileUpdate_def
        sleep_def setCountdownTotal_def setCountdownProgress_def del: upt_Suc)
  show "sent (snd (asyncEffect c ar backend triggerPhoto s)) =
          sent s + Suc (NUM_PHOTOS c - 1) * length (capture_events ?sel)"
    by (simp add: run s7_def sent6 setTriggerFileUpdate_def
        sleep_def setCountdownTotal_def setCountdownProgress_def)
qed

lemma filter_capture_ticks: "filter is_capture (ticks D G i) = []"
  by (simp add: ticks_def)

lemma filter_capture_shot: "filter is_capture (shot_events c sel k) = capture_events sel"
  by (simp add: shot_events_def countdown_phase_def filter_capture_ticks capture_events_def
      split: option.splits)

lemma filter_concat_const:
  "(\<And>k. filter P (F k) = g) \<Longrightarrow> filter P (concat (map F ks)) = concat (replicate (length ks) g)"
  by (induction ks) simp_all

lemma length_concat_replicate: "length (concat (replicate n g)) = n * length g"
  by (induction n) simp_all

lemma captures_run_events:
  "length (filter is_capture (run_events c sel)) = Suc (NUM_PHOTOS c - 1) * length (capture_events sel)"
proof -
  have "filter is_capture (run_events c sel) =
      concat (replicate (length [0..<Suc (NUM_PHOTOS c - 1)]) (capture_events sel))"
    unfolding run_events_def filter_append
    by (simp only: filter_concat_const[of is_capture "shot_events c sel", OF filter_capture_shot])
       (simp add: cooldown_events_def)
  then show ?thesis by (simp only: length_concat_replicate length_upt) simp
qed

text \<open>
  Claim C1, amended. A capture run that is triggered while the first camera of the list has a
  non-empty port, and every capture request of which resolves, completes and adds to the
  trace exactly the events of \<open>run_events\<close>: for each shot its whole countdown, then
  its one request, then the wait after it, and only then the countdown of the next
  shot; after the last shot the closing events. The requests are \<open>Suc (NUM_PHOTOS c - 1)\<close>
  in number, which is \<open>NUM_PHOTOS c\<close> for one photo or more (three in the source).
\<close>

theorem capture_run_serialized:
  assumes "triggerPhoto \<noteq> 0" and "selected_port (cameras s) = Some p"
    and "\<forall>k. backend k = Resolved"
  shows "fst (asyncEffect c ar backend triggerPhoto s) = Inr () \<and>
         new_events s (snd (asyncEffect c ar backend triggerPhoto s)) = run_events c (Some p) \<and>
         length (filter is_capture (new_events s (snd (asyncEffect c ar backend triggerPhoto s)))) =
           Suc (NUM_PHOTOS c - 1) \<and>
         (1 \<le> NUM_PHOTOS c \<longrightarrow>
          length (filter is_capture (new_events s (snd (asyncEffect c ar backend triggerPhoto s)))) =
            NUM_PHOTOS c) \<and>
         sent (snd (asyncEffect c ar backend triggerPhoto s)) = sent s + Suc (NUM_PHOTOS c - 1)"
proof -
  from assms(3) have ok: "selected_port (cameras s) = None \<or> (\<forall>k. backend k = Resolved)" by simp
  note run = asyncEffect_completes[OF assms(1) ok, of c ar]
  have ev: "new_events s (snd (asyncEffect c ar backend triggerPhoto s)) = run_events c (Some p)"
    using run(2) assms(2) by (simp add: new_eventsI)
  have n: "length (filter is_capture (run_events c (Some p))) = Suc (NUM_PHOTOS c - 1)"
    by (simp add: captures_run_events capture_events_def)
  have s: "sent (snd (asyncEffect c ar backend triggerPhoto s)) = sent s + Suc (NUM_PHOTOS c - 1)"
    using run(3) assms(2) by (simp add: capture_events_def)
  from run(1) ev n s show ?thesis by simp
qed

text \<open>The run of the source constants on a camera at port \<^verbatim>\<open>usb:001,004\<close>: three requests.\<close>

theorem capture_run_serialized_witness:
  "(1::nat) \<noteq> 0 \<and>
   selected_port (cameras (initial_state (Some [example_camera]))) = Some ''usb:001,004'' \<and>
   (\<forall>k. all_resolved k = Resolved) \<and>
   fst (asyncEffect source_config simple_axios all_resolved 1 (initial_state (Some [example_camera]))) = Inr () \<and>
   length (filter is_capture (new_events (initial_state (Some [example_camera]))
     (snd (asyncEffect source_config simple_axios all_resolved 1 (initial_state (Some [example_camera])))))) = 3 \<and>
   sent (snd (asyncEffect source_config simple_axios all_resolved 1 (initial_state (Some [example_camera])))) = 3"
proof -
  have h1: "(1::nat) \<noteq> 0" by simp
  have h2: "selected_port (cameras (initial_state (Some [example_camera]))) = Some ''usb:001,004''"
    by (simp add: initial_state_def example_camera_def selected_port_def)
  have h3: "\<forall>k. all_resolved k = Resolved" by (simp add: all_resolved_def)
  have n: "NUM_PHOTOS source_config = 3" by (simp add: source_config_def)
  have s0: "sent (initial_state (Some [example_camera])) = 0" by (simp add: initial_state_def)
  note run = capture_run_serialized[OF h1 h2 h3, of source_config simple_axios]
  from run have a: "fst (asyncEffect source_config simple_axios all_resolved 1
      (initial_state (Some [example_camera]))) = Inr ()" by blast
  from run have b: "length (filter is_capture (new_events (initial_state (Some [example_camera]))
      (snd (asyncEffect source_config simple_axios all_resolved 1
        (initial_state (Some [example_camera])))))) = Suc (NUM_PHOTOS source_config - 1)" by blast
  from run have c: "sent (snd (asyncEffect source_config simple_axios all_resolved 1
      (initial_state (Some [example_camera])))) =
      sent (initial_state (Some [example_camera])) + Suc (NUM_PHOTOS source_config - 1)" by blast
  from a b c h1 h2 h3 show ?thesis
    by (simp add: n s0)
qed

text \<open>
  Without the condition on the requests the count is not the number of photos: when
  the first request of a run is answered with status 503 and every later one resolves,
  the request is sent again, the run of three photos completes, and it has issued four
  capture requests.
\<close>

theorem capture_run_retry_counterexample:
  "fst (asyncEffect source_config simple_axios first_request_503 1 (initial_state (Some [example_camera])))
     = Inr () \<and>
   length (filter is_capture (trace (snd
     (asyncEffect source_config simple_axios first_request_503 1 (initial_state (Some [example_camera])))))) = 4 \<and>
   NUM_PHOTOS source_config = 3"
  by (simp add: asyncEffect_def photoLoop.simps captureImage_def Let_def source_config_def
      simple_axios_def first_request_503_def initial_state_def example_camera_def
      countdownLoop_cameras countdownLoop_sent countdownLoop_trace filter_capture_ticks
      setCountdownProgress_def setCountdownTotal_def sleep_def setTriggerFileUpdate_def
      isNetworkOrIdempotentRequestError_def eval_nat_numeral)

text \<open>
  Claim C10. When no camera is selected (the list is not loaded, or empty, or the port
  of its first camera is the empty string, which is the case when no camera has a port)
  each call of \<open>captureImage\<close> returns at once and leaves the state as it is. A
  triggered run still completes, whatever the backend would answer; it adds the
  countdowns, waits and closing events of a run, which are the events of a run with a
  camera less its requests, and it sends nothing.
\<close>

theorem no_camera_run_issues_no_requests:
  assumes "triggerPhoto \<noteq> 0" and "selected_port (cameras s) = None"
  shows "captureImage ar backend s = (Inr (), s) \<and>
         fst (asyncEffect c ar backend triggerPhoto s) = Inr () \<and>
         new_events s (snd (asyncEffect c ar backend triggerPhoto s)) = run_events c None \<and>
         filter is_capture (new_events s (snd (asyncEffect c ar backend triggerPhoto s))) = [] \<and>
         sent (snd (asyncEffect c ar backend triggerPhoto s)) = sent s \<and>
         run_events c None = filter (\<lambda>e. \<not> is_capture e) (run_events c (Some p))"
proof -
  from assms(2) have ok: "selected_port (cameras s) = None \<or> (\<forall>k. backend k = Resolved)" by simp
  note run = asyncEffect_completes[OF assms(1) ok, of c ar]
  have ev: "new_events s (snd (asyncEffect c ar backend triggerPhoto s)) = run_events c None"
    using run(2) assms(2) by (simp add: new_eventsI)
  have n: "length (filter is_capture (run_events c None)) = 0"
    by (simp add: captures_run_events capture_events_def)
  have s: "sent (snd (asyncEffect c ar backend triggerPhoto s)) = sent s"
    using run(3) assms(2) by (simp add: capture_events_def)
  have nc_ticks: "filter (\<lambda>e. \<not> is_capture e) (ticks D G i) = ticks D G i" for D G i
    by (simp add: ticks_def)
  have shot: "filter (\<lambda>e. \<not> is_capture e) (shot_events c (Some p) k) = shot_events c None k" for k
    by (simp add: shot_events_def countdown_phase_def capture_events_def nc_ticks)
  have "filter (\<lambda>e. \<not> is_capture e) (run_events c (Some p)) = run_events c None"
    unfolding run_events_def filter_append filter_concat map_map comp_def shot
    by (simp add: cooldown_events_def)
  with run(1) ev n s captureImage_none[OF assms(2), of ar backend] show ?thesis by simp
qed

text \<open>A run on an empty list of cameras.\<close>

theorem no_camera_run_issues_no_requests_witness:
  "(1::nat) \<noteq> 0 \<and>
   selected_port (cameras (initial_state (Some []))) = None \<and>
   fst (asyncEffect source_config simple_axios second_request_404 1 (initial_state (Some []))) = Inr () \<and>
   filter is_capture (new_events (initial_state (Some []))
     (snd (asyncEffect source_config simple_axios second_request_404 1 (initial_state (Some []))))) = [] \<and>
   sent (snd (asyncEffect source_config simple_axios second_request_404 1 (initial_state (Some [])))) = 0"
proof -
  have h1: "(1::nat) \<noteq> 0" by simp
  have h2: "selected_port (cameras (initial_state (Some []))) = None"
    by (simp add: initial_state_def selected_port_def)
  have s0: "sent (initial_state (Some [])) = 0" by (simp add: initial_state_def)
  note run = no_camera_run_issues_no_requests[OF h1 h2, where c = source_config and ar = simple_axios
      and backend = second_request_404 and p = "''usb:001,004''"]
  from run have a: "fst (asyncEffect source_config simple_axios second_request_404 1
      (initial_state (Some []))) = Inr ()" by blast
  from run have b: "filter is_capture (new_events (initial_state (Some []))
      (snd (asyncEffect source_config simple_axios second_request_404 1 (initial_state (Some []))))) = []"
    by blast
  from run have c: "sent (snd (asyncEffect source_config simple_axios second_request_404 1
      (initial_state (Some [])))) = sent (initial_state (Some []))" by blast
  from a b c h1 h2 show ?thesis
    by (simp add: s0)
qed

section \<open>Countdown progress\<close>

lemma progress_samples_append:
  "progress_samples (xs @ ys) = progress_samples xs @ progress_samples ys"
  by (induction xs rule: progress_samples.induct) simp_all

lemma progress_samples_concat:
  "progress_samples (concat (map F ks)) = concat (map (\<lambda>k. progress_samples (F k)) ks)"
  by (induction ks) (simp_all add: progress_samples_append)

lemma progress_samples_ticks:
  "progress_samples (ticks D G 0) = map (\<lambda>i. D * (of_nat i / of_nat G)) [1..<Suc G]"
proof -
  have "progress_samples (ticks D G 0) = map (\<lambda>k. D * (of_nat (Suc k) / of_nat G)) [0..<G]"
    unfolding ticks_def progress_samples_concat by (induction G) simp_all
  also have "\<dots> = map (\<lambda>i. D * (of_nat i / of_nat G)) (map Suc [0..<G])"
    by (simp only: map_map comp_def)
  also have "map Suc [0..<G] = [1..<Suc G]"
    by (simp only: map_Suc_upt One_nat_def)
  finally show ?thesis .
qed

lemma progress_samples_shot:
  "progress_samples (shot_events c sel k) =
     0 # map (\<lambda>i. shot_delay c k * (of_nat i / of_nat (SPINNER_GRANULARITY c)))
           [1..<Suc (SPINNER_GRANULARITY c)]"
  by (simp add: shot_events_def countdown_phase_def progress_samples_append progress_samples_ticks
      capture_events_def del: upt_Suc split: option.splits)

lemma progress_samples_run:
  "progress_samples (run_events c sel) =
     concat (map (\<lambda>k. 0 # map (\<lambda>i. shot_delay c k * (of_nat i / of_nat (SPINNER_GRANULARITY c)))
                           [1..<Suc (SPINNER_GRANULARITY c)]) [0..<Suc (NUM_PHOTOS c - 1)]) @ [0]"
  unfolding run_events_def progress_samples_append progress_samples_concat progress_samples_shot
  by (simp add: cooldown_events_def del: upt_Suc)

lemma sorted_samples:
  assumes "(0::rat) \<le> D"
  shows "sorted (map (\<lambda>i. D * (of_nat i / of_nat G)) [1..<Suc G])"
proof -
  have "sorted_wrt (\<lambda>i j. D * (of_nat i / of_nat G) \<le> D * (of_nat j / of_nat G)) [1..<Suc G]"
  proof (rule sorted_wrt_mono_rel[where P = "(\<le>)"])
    fix i j :: nat
    assume "i \<le> j"
    then have "(of_nat i :: rat) / of_nat G \<le> of_nat j / of_nat G"
      by (intro divide_right_mono) simp_all
    then show "D * (of_nat i / of_nat G) \<le> D * (of_nat j / of_nat G)"
      using assms by (rule mult_left_mono)
  next
    show "sorted_wrt (\<le>) [1..<Suc G]" by (rule sorted_upt)
  qed
  then show ?thesis by (simp only: sorted_map)
qed

lemma last_samples:
  assumes "0 < G"
  shows "last (map (\<lambda>i. (D::rat) * (of_nat i / of_nat G)) [1..<Suc G]) = D"
proof -
  from assms have ne: "[1..<Suc G] \<noteq> []" by simp
  from assms have "last [1..<Suc G] = G" by simp
  with ne have "last (map (\<lambda>i. D * (of_nat i / of_nat G)) [1..<Suc G]) = D * (of_nat G / of_nat G)"
    by (simp add: last_map del: upt_Suc)
  with assms show ?thesis by simp
qed

text \<open>
  Claim C2. A countdown of duration \<open>D \<ge> 0\<close> with \<open>G > 0\<close> ticks emits \<open>G\<close> progress
  values; the \<open>i\<close>-th is \<open>D * (i / G)\<close>, they never decrease, and the last is \<open>D\<close>. In a
  run that completes, the progress values of each shot are a zero, which resets the
  progress, followed by those \<open>G\<close> values for the delay of the shot, and the run ends
  with a zero.
\<close>

theorem countdown_progress_samples:
  assumes "0 \<le> D" and "0 < G"
  shows "progress_samples (new_events s (countdownLoop D G 0 s)) =
           map (\<lambda>i. D * (of_nat i / of_nat G)) [1..<Suc G] \<and>
         length (progress_samples (new_events s (countdownLoop D G 0 s))) = G \<and>
         sorted (progress_samples (new_events s (countdownLoop D G 0 s))) \<and>
         last (progress_samples (new_events s (countdownLoop D G 0 s))) = D \<and>
         (triggerPhoto \<noteq> 0 \<longrightarrow>
          selected_port (cameras s) = None \<or> (\<forall>k. backend k = Resolved) \<longrightarrow>
          progress_samples (new_events s (snd (asyncEffect c ar backend triggerPhoto s))) =
            concat (map (\<lambda>k. 0 # map (\<lambda>i. shot_delay c k * (of_nat i / of_nat (SPINNER_GRANULARITY c)))
                                   [1..<Suc (SPINNER_GRANULARITY c)])
                     [0..<Suc (NUM_PHOTOS c - 1)]) @ [0])"
proof -
  have ev: "new_events s (countdownLoop D G 0 s) = ticks D G 0"
    by (rule new_eventsI) (rule countdownLoop_trace)
  have samples: "progress_samples (new_events s (countdownLoop D G 0 s)) =
      map (\<lambda>i. D * (of_nat i / of_nat G)) [1..<Suc G]"
    by (simp only: ev progress_samples_ticks)
  have len: "length (map (\<lambda>i. D * (of_nat i / of_nat G)) [1..<Suc G]) = G" by simp
  have run: "progress_samples (new_events s (snd (asyncEffect c ar backend triggerPhoto s))) =
      concat (map (\<lambda>k. 0 # map (\<lambda>i. shot_delay c k * (of_nat i / of_nat (SPINNER_GRANULARITY c)))
                           [1..<Suc (SPINNER_GRANULARITY c)]) [0..<Suc (NUM_PHOTOS c - 1)]) @ [0]"
    if "triggerPhoto \<noteq> 0" "selected_port (cameras s) = None \<or> (\<forall>k. backend k = Resolved)"
  proof -
    have "new_events s (snd (asyncEffect c ar backend triggerPhoto s)) =
        run_events c (selected_port (cameras s))"
      by (rule new_eventsI) (rule asyncEffect_completes(2)[OF that])
    then show ?thesis by (simp only: progress_samples_run)
  qed
  from samples len sorted_samples[OF assms(1)] last_samples[OF assms(2)] run
  show ?thesis by (simp only: simp_thms) blast
qed

text \<open>
  Scenario A: with a delay of 5000 and ten ticks the values are 500, 1000, ..., 5000, and
  the run of the source constants resets the progress before each of its three phases.
\<close>

theorem countdown_progress_samples_witness:
  "(0::rat) \<le> 5000 \<and> (0::nat) < 10 \<and>
   progress_samples (new_events (initial_state None) (countdownLoop 5000 10 0 (initial_state None))) =
     [500, 1000, 1500, 2000, 2500, 3000, 3500, 4000, 4500, 5000] \<and>
   (1::nat) \<noteq> 0 \<and> (\<forall>k. all_resolved k = Resolved) \<and>
   progress_samples (new_events (initial_state (Some [example_camera]))
       (snd (asyncEffect source_config simple_axios all_resolved 1
          (initial_state (Some [example_camera]))))) =
     [0, 500, 1000, 1500, 2000, 2500, 3000, 3500, 4000, 4500, 5000,
      0, 300, 600, 900, 1200, 1500, 1800, 2100, 2400, 2700, 3000,
      0, 300, 600, 900, 1200, 1500, 1800, 2100, 2400, 2700, 3000, 0]"
proof -
  have h1: "(0::rat) \<le> 5000" by simp
  have h2: "(0::nat) < 10" by simp
  have h3: "(1::nat) \<noteq> 0" by simp
  have h4: "\<forall>k. all_resolved k = Resolved" by (simp add: all_resolved_def)
  have ticks10: "[1..<Suc 10] = [1, 2, 3, 4, 5, 6, 7, 8, 9, 10::nat]"
    by (simp add: upt_conv_Cons)
  have shots: "[0..<Suc (NUM_PHOTOS source_config - 1)] = [0, 1, 2]"
    by (simp add: source_config_def upt_conv_Cons)
  have g: "SPINNER_GRANULARITY source_config = 10" by (simp add: source_config_def)
  note t = countdown_progress_samples[OF h1 h2, where s = "initial_state None"]
  from t have "progress_samples (new_events (initial_state None)
      (countdownLoop 5000 10 0 (initial_state None))) =
     map (\<lambda>i. 5000 * (of_nat i / of_nat 10)) [1..<Suc 10]"
    by blast
  then have a: "progress_samples (new_events (initial_state None)
      (countdownLoop 5000 10 0 (initial_state None))) =
     [500, 1000, 1500, 2000, 2500, 3000, 3500, 4000, 4500, 5000]"
    by (simp only: ticks10) simp
  note u = countdown_progress_samples[OF h1 h2, where s = "initial_state (Some [example_camera])"
      and triggerPhoto = 1 and backend = all_resolved and c = source_config and ar = simple_axios]
  from u h3 h4 have "progress_samples (new_events (initial_state (Some [example_camera]))
       (snd (asyncEffect source_config simple_axios all_resolved 1
          (initial_state (Some [example_camera]))))) =
     concat (map (\<lambda>k. 0 # map (\<lambda>i. shot_delay source_config k *
         (of_nat i / of_nat (SPINNER_GRANULARITY source_config)))
           [1..<Suc (SPINNER_GRANULARITY source_config)])
        [0..<Suc (NUM_PHOTOS source_config - 1)]) @ [0]"
    by blast
  then have b: "progress_samples (new_events (initial_state (Some [example_camera]))
       (snd (asyncEffect source_config simple_axios all_resolved 1
          (initial_state (Some [example_camera]))))) =
     [0, 500, 1000, 1500, 2000, 2500, 3000, 3500, 4000, 4500, 5000,
      0, 300, 600, 900, 1200, 1500, 1800, 2100, 2400, 2700, 3000,
      0, 300, 600, 900, 1200, 1500, 1800, 2100, 2400, 2700, 3000, 0]"
    by (simp only: shots g ticks10) (simp add: shot_delay_def source_config_def)
  from h1 h2 h3 h4 a b show ?thesis by blast
qed

section \<open>The capture run against any backend\<close>

lemma axios_get_general:
  "\<exists>rejected.
     trace (snd (axios_get ar backend req left s)) =
       trace s @ attempts req rejected (fst (axios_get ar backend req left s) = Inr ()) \<and>
     sent (snd (axios_get ar backend req left s)) =
       sent s + length (attempts req rejected (fst (axios_get ar backend req left s) = Inr ())) \<and>
     1 \<le> length (attempts req rejected (fst (axios_get ar backend req left s) = Inr ())) \<and>
     length (attempts req rejected (fst (axios_get ar backend req left s) = Inr ())) \<le> Suc left \<and>
     cameras (snd (axios_get ar backend req left s)) = cameras s"
proof (induction left arbitrary: s)
  case 0
  show ?case
  proof (cases "backend (sent s)")
    case Resolved
    then show ?thesis by (intro exI[of _ "[]"]) (simp add: attempts_def Let_def)
  next
    case (Rejected st)
    then show ?thesis by (intro exI[of _ "[st]"]) (simp add: attempts_def Let_def)
  qed
next
  case (Suc left)
  define s' where "s' = s\<lparr>sent := sent s + 1, trace := trace s @ [req (backend (sent s))]\<rparr>"
  show ?case
  proof (cases "backend (sent s)")
    case Resolved
    then show ?thesis by (intro exI[of _ "[]"]) (simp add: attempts_def Let_def)
  next
    case (Rejected st)
    show ?thesis
    proof (cases "retryCondition ar st")
      case False
      with Rejected show ?thesis by (intro exI[of _ "[st]"]) (simp add: attempts_def Let_def)
    next
      case True
      with Rejected have step: "axios_get ar backend req (Suc left) s = axios_get ar backend req left s'"
        by (simp add: Let_def s'_def)
      from Suc.IH[of s'] obtain rejected where
        IH: "trace (snd (axios_get ar backend req left s')) =
               trace s' @ attempts req rejected (fst (axios_get ar backend req left s') = Inr ())"
            "sent (snd (axios_get ar backend req left s')) =
               sent s' + length (attempts req rejected (fst (axios_get ar backend req left s') = Inr ()))"
            "1 \<le> length (attempts req rejected (fst (axios_get ar backend req left s') = Inr ()))"
            "length (attempts req rejected (fst (axios_get ar backend req left s') = Inr ())) \<le> Suc left"
            "cameras (snd (axios_get ar backend req left s')) = cameras s'"
        by blast
      have app: "attempts req (st # rejected) ok = req (Rejected st) # attempts req rejected ok" for ok
        by (simp add: attempts_def)
      show ?thesis
        unfolding step
        using IH Rejected by (intro exI[of _ "st # rejected"]) (simp add: app s'_def)
    qed
  qed
qed

lemma aec_skip:
  "\<forall>e\<in>set xs. \<not> resolved_capture e \<Longrightarrow>
   after_each_capture Q (xs @ ys) = after_each_capture Q ys"
  by (induction xs) simp_all

lemma no_resolved_phase: "\<forall>e\<in>set (countdown_phase D G). \<not> resolved_capture e"
  by (auto simp: countdown_phase_def ticks_def)

lemma continues_phase:
  "continues c (countdown_phase (PHOTO_TIME_SUBSEQUENT c) (SPINNER_GRANULARITY c) @ es)"
  by (simp add: continues_def)

lemma continues_cooldown: "continues c cooldown_events"
  by (simp add: continues_def)

lemma aec_cooldown: "after_each_capture Q cooldown_events"
  by (simp add: cooldown_events_def)

text \<open>A shot whose capture returned: countdown, attempts, the wait, and what follows.\<close>

lemma shot_chunk:
  assumes pre: "\<forall>e\<in>set pre. \<not> resolved_capture e"
    and fails: "\<forall>e\<in>set fails. \<not> resolved_capture e"
    and final: "final = [] \<or> (\<exists>p. final = [GetCaptureImage p Resolved])"
    and cont: "continues c rest"
    and rest: "after_each_capture (waits_then_continues d c) rest"
  shows "after_each_capture (waits_then_continues d c) (pre @ fails @ final @ Sleep d # rest)"
proof -
  let ?Q = "waits_then_continues d c"
  have "after_each_capture ?Q (final @ Sleep d # rest)"
  proof (cases "final = []")
    case True
    with rest show ?thesis by simp
  next
    case False
    with final obtain p where "final = [GetCaptureImage p Resolved]" by blast
    with cont rest show ?thesis by (simp add: waits_then_continues_def)
  qed
  then have "after_each_capture ?Q (fails @ final @ Sleep d # rest)"
    by (simp only: aec_skip[OF fails])
  then show ?thesis
    by (simp only: aec_skip[OF pre])
qed

text \<open>A shot whose capture was rejected: nothing follows the attempts.\<close>

lemma abort_chunk:
  assumes pre: "\<forall>e\<in>set pre. \<not> resolved_capture e"
    and fails: "\<forall>e\<in>set fails. \<not> resolved_capture e"
  shows "after_each_capture Q (pre @ fails)"
proof -
  have "after_each_capture Q (fails @ [])" by (simp only: aec_skip[OF fails]) simp
  then have "after_each_capture Q (pre @ fails @ [])" by (simp only: aec_skip[OF pre])
  then show ?thesis by simp
qed

lemma captureImage_shape:
  "\<exists>fails final.
     (\<forall>e\<in>set fails. \<not> resolved_capture e) \<and>
     trace (snd (captureImage ar backend s)) = trace s @ fails @ final \<and>
     cameras (snd (captureImage ar backend s)) = cameras s \<and>
     (final = [] \<or>
      (fst (captureImage ar backend s) = Inr () \<and> (\<exists>p. final = [GetCaptureImage p Resolved])))"
proof (cases "selected_port (cameras s)")
  case None
  then show ?thesis
    by (intro exI[of _ "[]"]) (simp add: captureImage_none)
next
  case (Some p)
  then have eq: "captureImage ar backend s = axios_get ar backend (GetCaptureImage p) (retries ar) s"
    by (auto simp: captureImage_def selected_port_def split: option.splits list.splits if_splits)
  let ?r = "axios_get ar backend (GetCaptureImage p) (retries ar) s"
  from axios_get_general[of ar backend "GetCaptureImage p" "retries ar" s]
  obtain rejected where g: "trace (snd ?r) = trace s @ attempts (GetCaptureImage p) rejected (fst ?r = Inr ())"
    "cameras (snd ?r) = cameras s"
    by blast
  let ?fails = "map (\<lambda>st. GetCaptureImage p (Rejected st)) rejected"
  have nores: "\<forall>e\<in>set ?fails. \<not> resolved_capture e" by simp
  show ?thesis
  proof (cases "fst ?r = Inr ()")
    case True
    with g nores show ?thesis
      unfolding eq
      by (intro exI[of _ "?fails"] exI[of _ "[GetCaptureImage p Resolved]"])
         (simp add: attempts_def)
  next
    case False
    with g nores show ?thesis
      unfolding eq
      by (intro exI[of _ "?fails"] exI[of _ "[]"]) (simp add: attempts_def)
  qed
qed

text \<open>
  The events of the loop, followed by whatever comes after the loop when it ends
  without failure (\<open>k\<close>), or by nothing when a capture was rejected.
\<close>

lemma photoLoop_general:
  "\<exists>evs. trace (snd (photoLoop c ar backend i s)) = trace s @ evs \<and>
     (\<forall>k. (if fst (photoLoop c ar backend i s) = Inr ()
           then continues c k \<and>
                after_each_capture (waits_then_continues (1000 + PHOTO_POST_WAIT c) c) k
           else k = []) \<longrightarrow>
          continues c (evs @ k) \<and>
          after_each_capture (waits_then_continues (1000 + PHOTO_POST_WAIT c) c) (evs @ k))"
proof (induction c ar backend i s rule: photoLoop.induct)
  case (1 c ar backend i s)
  let ?D = "PHOTO_TIME_SUBSEQUENT c"
  let ?G = "SPINNER_GRANULARITY c"
  let ?d = "1000 + PHOTO_POST_WAIT c"
  let ?Q = "waits_then_continues ?d c"
  show ?case
  proof (cases "i < NUM_PHOTOS c - 1")
    case False
    then show ?thesis
      by (intro exI[of _ "[]"]) (simp add: photoLoop.simps[of c ar backend i s])
  next
    case True
    define s3 where "s3 = countdownLoop ?D ?G 0 (setCountdownTotal ?D (setCountdownProgress 0 s))"
    define s4 where "s4 = snd (captureImage ar backend s3)"
    define s5 where "s5 = sleep ?d s4"
    have s3: "trace s3 = trace s @ countdown_phase ?D ?G"
      by (rule phase_state[OF s3_def])
    from captureImage_shape[of ar backend s3] obtain fails final where
      cap: "\<forall>e\<in>set fails. \<not> resolved_capture e"
        "trace s4 = trace s3 @ fails @ final"
        "final = [] \<or>
         (fst (captureImage ar backend s3) = Inr () \<and> (\<exists>p. final = [GetCaptureImage p Resolved]))"
      unfolding s4_def by blast
    show ?thesis
    proof (cases "fst (captureImage ar backend s3)")
      case (Inl e)
      then have eq: "captureImage ar backend s3 = (Inl e, s4)"
        by (simp add: s4_def prod_eq_iff)
      have res: "photoLoop c ar backend i s = (Inl e, s4)"
        using True eq by (simp add: photoLoop.simps[of c ar backend i s] s3_def)
      from cap(3) Inl have final: "final = []" by auto
      have t: "trace s4 = trace s @ countdown_phase ?D ?G @ fails"
        using s3 cap(2) final by simp
      have "continues c (countdown_phase ?D ?G @ fails)" by (rule continues_phase)
      moreover have "after_each_capture ?Q (countdown_phase ?D ?G @ fails)"
        by (rule abort_chunk[OF no_resolved_phase cap(1)])
      ultimately show ?thesis
        unfolding res using t
        by (intro exI[of _ "countdown_phase ?D ?G @ fails"]) simp
    next
      case (Inr u)
      then have eq: "captureImage ar backend s3 = (Inr u, s4)"
        by (simp add: s4_def prod_eq_iff)
      have step: "photoLoop c ar backend i s = photoLoop c ar backend (Suc i) s5"
        using True eq by (simp add: photoLoop.simps[of c ar backend i s] s3_def s5_def)
      from "1.IH"[OF True refl refl s3_def eq[symmetric] refl, folded s5_def]
      obtain rest where rest: "trace (snd (photoLoop c ar backend (Suc i) s5)) = trace s5 @ rest"
        and after: "\<And>k. (if fst (photoLoop c ar backend (Suc i) s5) = Inr ()
                 then continues c k \<and> after_each_capture ?Q k else k = []) \<Longrightarrow>
              continues c (rest @ k) \<and> after_each_capture ?Q (rest @ k)"
        by blast
      from cap(3) have final: "final = [] \<or> (\<exists>p. final = [GetCaptureImage p Resolved])" by blast
      have t5: "trace s5 = trace s @ countdown_phase ?D ?G @ fails @ final @ [Sleep ?d]"
        using s3 cap(2) by (simp add: s5_def sleep_def)
      let ?evs = "countdown_phase ?D ?G @ fails @ final @ Sleep ?d # rest"
      have t: "trace (snd (photoLoop c ar backend (Suc i) s5)) = trace s @ ?evs"
        using rest t5 by simp
      have all: "continues c (?evs @ k) \<and> after_each_capture ?Q (?evs @ k)"
        if k: "if fst (photoLoop c ar backend (Suc i) s5) = Inr ()
               then continues c k \<and> after_each_capture ?Q k else k = []" for k
      proof -
        from after[OF k] have r: "continues c (rest @ k)" "after_each_capture ?Q (rest @ k)"
          by simp_all
        have "after_each_capture ?Q (countdown_phase ?D ?G @ fails @ final @ Sleep ?d # (rest @ k))"
          by (rule shot_chunk[OF no_resolved_phase cap(1) final r])
        moreover have "continues c (countdown_phase ?D ?G @ (fails @ final @ Sleep ?d # (rest @ k)))"
          by (rule continues_phase)
        ultimately show ?thesis by simp
      qed
      show ?thesis
        unfolding step using t all by (intro exI[of _ ?evs]) blast
    qed
  qed
qed

lemma asyncEffect_general:
  "\<exists>evs. trace (snd (asyncEffect c ar backend triggerPhoto s)) = trace s @ evs \<and>
     after_each_capture (waits_then_continues (1000 + PHOTO_POST_WAIT c) c) evs"
proof (cases "triggerPhoto = 0")
  case True
  then show ?thesis by (intro exI[of _ "[]"]) (simp add: asyncEffect_def)
next
  case False
  let ?D = "PHOTO_TIME_INITIAL c"
  let ?G = "SPINNER_GRANULARITY c"
  let ?d = "1000 + PHOTO_POST_WAIT c"
  let ?Q = "waits_then_continues ?d c"
  define s3 where "s3 = countdownLoop ?D ?G 0 (setCountdownTotal ?D (setCountdownProgress 0 s))"
  define s4 where "s4 = snd (captureImage ar backend s3)"
  define s5 where "s5 = sleep ?d s4"
  define s6 where "s6 = snd (photoLoop c ar backend 0 s5)"
  have s3: "trace s3 = trace s @ countdown_phase ?D ?G"
    by (rule phase_state[OF s3_def])
  from captureImage_shape[of ar backend s3] obtain fails final where
    cap: "\<forall>e\<in>set fails. \<not> resolved_capture e"
      "trace s4 = trace s3 @ fails @ final"
      "final = [] \<or>
       (fst (captureImage ar backend s3) = Inr () \<and> (\<exists>p. final = [GetCaptureImage p Resolved]))"
    unfolding s4_def by blast
  show ?thesis
  proof (cases "fst (captureImage ar backend s3)")
    case (Inl e)
    then have eq: "captureImage ar backend s3 = (Inl e, s4)"
      by (simp add: s4_def prod_eq_iff)
    have res: "asyncEffect c ar backend triggerPhoto s = (Inl e, s4)"
      using False eq by (simp add: asyncEffect_def s3_def[symmetric] Let_def)
    from cap(3) Inl have final: "final = []" by auto
    have t: "trace s4 = trace s @ countdown_phase ?D ?G @ fails"
      using s3 cap(2) final by simp
    have "after_each_capture ?Q (countdown_phase ?D ?G @ fails)"
      by (rule abort_chunk[OF no_resolved_phase cap(1)])
    then show ?thesis
      unfolding res using t
      by (intro exI[of _ "countdown_phase ?D ?G @ fails"]) simp
  next
    case (Inr u)
    then have eq: "captureImage ar backend s3 = (Inr u, s4)"
      by (simp add: s4_def prod_eq_iff)
    from cap(3) have final: "final = [] \<or> (\<exists>p. final = [GetCaptureImage p Resolved])" by blast
    have t5: "trace s5 = trace s @ countdown_phase ?D ?G @ fails @ final @ [Sleep ?d]"
      using s3 cap(2) by (simp add: s5_def sleep_def)
    from photoLoop_general[of c ar backend 0 s5]
    obtain rest where rest: "trace s6 = trace s5 @ rest"
      and after: "\<And>k. (if fst (photoLoop c ar backend 0 s5) = Inr ()
               then continues c k \<and> after_each_capture ?Q k else k = []) \<Longrightarrow>
            continues c (rest @ k) \<and> after_each_capture ?Q (rest @ k)"
      unfolding s6_def by blast
    show ?thesis
    proof (cases "fst (photoLoop c ar backend 0 s5)")
      case (Inl e)
      then have eq6: "photoLoop c ar backend 0 s5 = (Inl e, s6)"
        by (simp add: s6_def prod_eq_iff)
      have res: "asyncEffect c ar backend triggerPhoto s = (Inl e, s6)"
        using False eq eq6 by (simp add: asyncEffect_def s3_def[symmetric] s5_def[symmetric] Let_def)
      from after[of "[]"] Inl have r: "continues c rest" "after_each_capture ?Q rest"
        by simp_all
      have "after_each_capture ?Q (countdown_phase ?D ?G @ fails @ final @ Sleep ?d # rest)"
        by (rule shot_chunk[OF no_resolved_phase cap(1) final r])
      then show ?thesis
        unfolding res using rest t5
        by (intro exI[of _ "countdown_phase ?D ?G @ fails @ final @ Sleep ?d # rest"]) simp
    next
      case (Inr u6)
      then have eq6: "photoLoop c ar backend 0 s5 = (Inr u6, s6)"
        by (simp add: s6_def prod_eq_iff)
      have res: "asyncEffect c ar backend triggerPhoto s =
          (Inr (), setTriggerFileUpdate (sleep 3000 (setCountdownTotal 0 (setCountdownProgress 0 s6))))"
        using False eq eq6 by (simp add: asyncEffect_def s3_def[symmetric] s5_def[symmetric] Let_def)
      from Inr have "fst (photoLoop c ar backend 0 s5) = Inr ()" by simp
      with after[of cooldown_events] continues_cooldown[of c] aec_cooldown[of ?Q]
      have r: "continues c (rest @ cooldown_events)" "after_each_capture ?Q (rest @ cooldown_events)"
        by simp_all
      have "after_each_capture ?Q
          (countdown_phase ?D ?G @ fails @ final @ Sleep ?d # (rest @ cooldown_events))"
        by (rule shot_chunk[OF no_resolved_phase cap(1) final r])
      then show ?thesis
        unfolding res using rest t5
        by (intro exI[of _ "countdown_phase ?D ?G @ fails @ final @ Sleep ?d # (rest @ cooldown_events)"])
           (simp add: cooldown_events_def setTriggerFileUpdate_def sleep_def setCountdownTotal_def
              setCountdownProgress_def)
    qed
  qed
qed

text \<open>
  Claim C8, amended. In every run, whatever the backend answers, each capture request
  that resolved is followed at once by a sleep of exactly \<open>1000 + PHOTO_POST_WAIT c\<close>
  milliseconds, and that sleep is followed at once by the whole countdown of the next
  shot or by the closing events, with which the run ends.
\<close>

theorem post_capture_wait:
  "trace (snd (asyncEffect c ar backend triggerPhoto s)) =
     trace s @ new_events s (snd (asyncEffect c ar backend triggerPhoto s)) \<and>
   after_each_capture (waits_then_continues (1000 + PHOTO_POST_WAIT c) c)
     (new_events s (snd (asyncEffect c ar backend triggerPhoto s)))"
proof -
  from asyncEffect_general[of c ar backend triggerPhoto s] obtain evs where
    e: "trace (snd (asyncEffect c ar backend triggerPhoto s)) = trace s @ evs"
       "after_each_capture (waits_then_continues (1000 + PHOTO_POST_WAIT c) c) evs"
    by blast
  from e(1) have "new_events s (snd (asyncEffect c ar backend triggerPhoto s)) = evs"
    by (rule new_eventsI)
  with e show ?thesis by simp
qed

text \<open>A run of the source constants, the second request of which fails: the wait is 1000.\<close>

theorem post_capture_wait_witness:
  "after_each_capture (waits_then_continues 1000 source_config)
     (new_events (initial_state (Some [example_camera]))
       (snd (asyncEffect source_config simple_axios second_request_404 1
         (initial_state (Some [example_camera])))))"
  using post_capture_wait[of source_config simple_axios second_request_404 1
      "initial_state (Some [example_camera])"]
  by (simp add: source_config_def)

text \<open>
  The wait is not \<open>PHOTO_POST_WAIT\<close> itself: in the run of the source constants, where
  that constant is 0, the requests are not followed by a sleep of 0.
\<close>

theorem post_capture_wait_counterexample:
  "\<not> after_each_capture (waits_then_continues (PHOTO_POST_WAIT source_config) source_config)
      (trace (snd (asyncEffect source_config simple_axios all_resolved 1
         (initial_state (Some [example_camera])))))"
proof -
  have h1: "(1::nat) \<noteq> 0" by simp
  have h3: "selected_port (cameras (initial_state (Some [example_camera]))) = None \<or>
      (\<forall>k. all_resolved k = Resolved)" by (simp add: all_resolved_def)
  have t: "trace (snd (asyncEffect source_config simple_axios all_resolved 1
         (initial_state (Some [example_camera])))) = run_events source_config (Some ''usb:001,004'')"
    using asyncEffect_completes(2)[OF h1 h3, of source_config simple_axios]
    by (simp add: initial_state_def example_camera_def selected_port_def)
  show ?thesis
    unfolding t
    by (simp add: run_events_def shot_events_def countdown_phase_def ticks_def capture_events_def
        shot_delay_def source_config_def upt_conv_Cons waits_then_continues_def)
qed

section \<open>Requests per call\<close>

lemma captureImage_requests:
  "sent (snd (captureImage ar backend s)) \<le> sent s + 1 + retries ar \<and>
   length (filter is_capture (new_events s (snd (captureImage ar backend s)))) =
     sent (snd (captureImage ar backend s)) - sent s"
proof (cases "selected_port (cameras s)")
  case None
  then show ?thesis by (simp add: captureImage_none new_events_def)
next
  case (Some p)
  then have eq: "captureImage ar backend s = axios_get ar backend (GetCaptureImage p) (retries ar) s"
    by (auto simp: captureImage_def selected_port_def split: option.splits list.splits if_splits)
  let ?r = "axios_get ar backend (GetCaptureImage p) (retries ar) s"
  from axios_get_general[of ar backend "GetCaptureImage p" "retries ar" s]
  obtain rejected where
    g: "trace (snd ?r) = trace s @ attempts (GetCaptureImage p) rejected (fst ?r = Inr ())"
       "sent (snd ?r) = sent s + length (attempts (GetCaptureImage p) rejected (fst ?r = Inr ()))"
       "length (attempts (GetCaptureImage p) rejected (fst ?r = Inr ())) \<le> Suc (retries ar)"
    by blast
  have ev: "new_events s (snd ?r) = attempts (GetCaptureImage p) rejected (fst ?r = Inr ())"
    by (rule new_eventsI) (rule g(1))
  have allcap: "filter is_capture (attempts (GetCaptureImage p) rejected ok) =
      attempts (GetCaptureImage p) rejected ok" for ok
    by (simp add: attempts_def)
  from g(2,3) show ?thesis
    unfolding eq ev allcap by simp
qed

lemma axios_get_exact:
  "sent (snd (axios_get ar backend req left s)) =
     sent s + 1 + length (takeWhile (retryable ar) (map backend [sent s..<sent s + left])) \<and>
   trace (snd (axios_get ar backend req left s)) =
     trace s @ map (\<lambda>k. req (backend k)) [sent s..<sent (snd (axios_get ar backend req left s))] \<and>
   fst (axios_get ar backend req left s) =
     outcome (backend (sent (snd (axios_get ar backend req left s)) - 1)) \<and>
   cameras (snd (axios_get ar backend req left s)) = cameras s"
proof (induction left arbitrary: s)
  case 0
  show ?case by (cases "backend (sent s)") (simp_all add: Let_def)
next
  case (Suc left)
  have range: "[sent s..<sent s + Suc left] = sent s # [Suc (sent s)..<Suc (sent s) + left]"
    by (simp add: upt_conv_Cons)
  define s1 where "s1 = s\<lparr>sent := sent s + 1, trace := trace s @ [req (backend (sent s))]\<rparr>"
  show ?case
  proof (cases "retryable ar (backend (sent s))")
    case False
    then show ?thesis
      by (cases "backend (sent s)") (simp_all add: Let_def upt_conv_Cons del: upt_Suc)
  next
    case True
    then obtain e where rej: "backend (sent s) = Rejected e" and rc: "retryCondition ar e"
      by (cases "backend (sent s)") simp_all
    then have step: "axios_get ar backend req (Suc left) s = axios_get ar backend req left s1"
      by (simp add: Let_def s1_def)
    let ?s' = "snd (axios_get ar backend req left s1)"
    have s1: "sent s1 = Suc (sent s)" "trace s1 = trace s @ [req (backend (sent s))]"
      "cameras s1 = cameras s"
      by (simp_all add: s1_def)
    note IH = Suc.IH[of s1]
    from IH have n: "sent ?s' =
        sent s1 + 1 + length (takeWhile (retryable ar) (map backend [sent s1..<sent s1 + left]))"
      by blast
    from IH have t: "trace ?s' = trace s1 @ map (\<lambda>k. req (backend k)) [sent s1..<sent ?s']"
      by blast
    from IH have f: "fst (axios_get ar backend req left s1) = outcome (backend (sent ?s' - 1))"
      by blast
    from IH have c: "cameras ?s' = cameras s1" by blast
    from n have lt: "sent s < sent ?s'" by (simp add: s1)
    have c1: "sent ?s' =
        sent s + 1 + length (takeWhile (retryable ar) (map backend [sent s..<sent s + Suc left]))"
      using n True by (simp only: range s1) simp
    have c2: "trace ?s' = trace s @ map (\<lambda>k. req (backend k)) [sent s..<sent ?s']"
      using t lt by (simp add: s1 upt_conv_Cons)
    from c1 c2 f c show ?thesis
      unfolding step by (simp add: s1)
  qed
qed


lemma captureImage_exact:
  assumes "selected_port (cameras s) = Some p"
  shows "sent (snd (captureImage ar backend s)) =
           sent s + 1 + length (takeWhile (retryable ar) (map backend [sent s..<sent s + retries ar]))"
    and "new_events s (snd (captureImage ar backend s)) =
           map (\<lambda>k. GetCaptureImage p (backend k)) [sent s..<sent (snd (captureImage ar backend s))]"
    and "fst (captureImage ar backend s) =
           outcome (backend (sent (snd (captureImage ar backend s)) - 1))"
proof -
  from assms have eq: "captureImage ar backend s = axios_get ar backend (GetCaptureImage p) (retries ar) s"
    by (auto simp: captureImage_def selected_port_def split: option.splits list.splits if_splits)
  note g = axios_get_exact[of ar backend "GetCaptureImage p" "retries ar" s]
  from g show "sent (snd (captureImage ar backend s)) =
      sent s + 1 + length (takeWhile (retryable ar) (map backend [sent s..<sent s + retries ar]))"
    unfolding eq by blast
  from g have "trace (snd (captureImage ar backend s)) =
      trace s @ map (\<lambda>k. GetCaptureImage p (backend k)) [sent s..<sent (snd (captureImage ar backend s))]"
    unfolding eq by blast
  then show "new_events s (snd (captureImage ar backend s)) =
      map (\<lambda>k. GetCaptureImage p (backend k)) [sent s..<sent (snd (captureImage ar backend s))]"
    by (rule new_eventsI)
  from g show "fst (captureImage ar backend s) =
      outcome (backend (sent (snd (captureImage ar backend s)) - 1))"
    unfolding eq by blast
qed

text \<open>
  Claim C6, amended. The update callback of web/luum issues one PUT for a setting that
  is not read-only and none otherwise, and its Capture button issues one GET: that
  front end installs no retry. In web-simple, with a camera selected, one call of
  \<open>captureImage\<close> sends its request and sends it again after every outcome that the
  retry condition accepts, as long as retries are left: the number of requests is one
  more than the length of the initial run of such outcomes among the next \<open>retries\<close>
  answers of the backend, so at most \<open>1 + retries\<close>. Every request is a capture
  request in the trace, and the caller receives the outcome of the last one. With the
  source's policy there are three retries, and the outcomes sent again are the
  rejections whose code is not \<^verbatim>\<open>ECONNABORTED\<close> and that have no response or a 5xx
  status.
\<close>

theorem write_request_counts:
  "length (issued (snd (onChange camera setting put_backend newVal st))) =
     length (issued st) + (if readonly setting = 0 then 1 else 0) \<and>
   length (snd (captureButton camera get_backend reqs)) = length reqs + 1 \<and>
   (selected_port (cameras s) = Some p \<longrightarrow>
      sent (snd (captureImage ar backend s)) =
        sent s + 1 + length (takeWhile (retryable ar) (map backend [sent s..<sent s + retries ar])) \<and>
      new_events s (snd (captureImage ar backend s)) =
        map (\<lambda>k. GetCaptureImage p (backend k)) [sent s..<sent (snd (captureImage ar backend s))] \<and>
      fst (captureImage ar backend s) =
        outcome (backend (sent (snd (captureImage ar backend s)) - 1))) \<and>
   sent (snd (captureImage ar backend s)) \<le> sent s + 1 + retries ar \<and>
   length (filter is_capture (new_events s (snd (captureImage ar backend s)))) =
     sent (snd (captureImage ar backend s)) - sent s \<and>
   retries simple_axios = 3 \<and>
   retryable simple_axios (Rejected e) =
     (error_code e \<noteq> ''ECONNABORTED'' \<and>
      (case response_status e of None \<Rightarrow> True | Some status \<Rightarrow> 500 \<le> status \<and> status \<le> 599))"
proof -
  have a: "length (issued (snd (onChange camera setting put_backend newVal st))) =
     length (issued st) + (if readonly setting = 0 then 1 else 0)"
    by (simp add: onChange_def axios_put_def setLoading_def setTriggerRefresh_def Let_def
        split: axios_result.splits option.splits)
  have b: "length (snd (captureButton camera get_backend reqs)) = length reqs + 1"
    by (simp add: captureButton_def Let_def split: axios_result.splits)
  have c: "retries simple_axios = 3" by (simp add: simple_axios_def)
  have d: "retryable simple_axios (Rejected e) =
     (error_code e \<noteq> ''ECONNABORTED'' \<and>
      (case response_status e of None \<Rightarrow> True | Some status \<Rightarrow> 500 \<le> status \<and> status \<le> 599))"
    by (simp add: simple_axios_def isNetworkOrIdempotentRequestError_def)
  from a b c d captureImage_requests[of ar backend s] captureImage_exact[of s p ar backend]
  show ?thesis by blast
qed

text \<open>
  A capture that times out is not sent again; one answered 503 and then 200 takes two
  requests and resolves; an update answered with status 400 is one PUT.
\<close>

theorem write_request_counts_witness:
  "selected_port (cameras (initial_state (Some [example_camera]))) = Some ''usb:001,004'' \<and>
   sent (snd (captureImage simple_axios always_aborted (initial_state (Some [example_camera])))) = 1 \<and>
   sent (snd (captureImage simple_axios first_request_503 (initial_state (Some [example_camera])))) = 2 \<and>
   fst (captureImage simple_axios first_request_503 (initial_state (Some [example_camera]))) = Inr () \<and>
   length (issued (snd (onChange luum_camera setting_a answers_400 (JString ''200'') idle))) = 1"
proof -
  let ?s = "initial_state (Some [example_camera])"
  have sel: "selected_port (cameras ?s) = Some ''usb:001,004''"
    by (simp add: initial_state_def example_camera_def selected_port_def)
  have s0: "sent ?s = 0" by (simp add: initial_state_def)
  have r: "retries simple_axios = 3" by (simp add: simple_axios_def)
  have ro: "readonly setting_a = 0" by (simp add: setting_a_def)
  have i0: "issued idle = []" by (simp add: idle_def)
  have range: "[0..<0 + 3] = [0, 1, 2::nat]" by (simp add: upt_conv_Cons)
  have ab: "takeWhile (retryable simple_axios) (map always_aborted [0, 1, 2]) = []"
    by (simp add: always_aborted_def simple_axios_def isNetworkOrIdempotentRequestError_def)
  have f5: "takeWhile (retryable simple_axios) (map first_request_503 [0, 1, 2]) =
      [Rejected (Failure ''ERR_BAD_RESPONSE'' (Some 503))]"
    by (simp add: first_request_503_def simple_axios_def isNetworkOrIdempotentRequestError_def)
  note ta = write_request_counts[where s = ?s and p = "''usb:001,004''" and ar = simple_axios
      and backend = always_aborted]
  note tf = write_request_counts[where s = ?s and p = "''usb:001,004''" and ar = simple_axios
      and backend = first_request_503 and camera = luum_camera and setting = setting_a
      and put_backend = answers_400 and newVal = "JString ''200''" and st = idle]
  from ta sel have "sent (snd (captureImage simple_axios always_aborted ?s)) =
      sent ?s + 1 + length (takeWhile (retryable simple_axios)
        (map always_aborted [sent ?s..<sent ?s + retries simple_axios]))"
    by blast
  then have a: "sent (snd (captureImage simple_axios always_aborted ?s)) = 1"
    by (simp only: s0 r range ab) simp
  from tf sel have "sent (snd (captureImage simple_axios first_request_503 ?s)) =
      sent ?s + 1 + length (takeWhile (retryable simple_axios)
        (map first_request_503 [sent ?s..<sent ?s + retries simple_axios]))"
    by blast
  then have b: "sent (snd (captureImage simple_axios first_request_503 ?s)) = 2"
    by (simp only: s0 r range f5) simp
  from tf sel have "fst (captureImage simple_axios first_request_503 ?s) =
      outcome (first_request_503 (sent (snd (captureImage simple_axios first_request_503 ?s)) - 1))"
    by blast
  then have c: "fst (captureImage simple_axios first_request_503 ?s) = Inr ()"
    by (simp add: b first_request_503_def)
  from tf have "length (issued (snd (onChange luum_camera setting_a answers_400 (JString ''200'') idle))) =
      length (issued idle) + (if readonly setting_a = 0 then 1 else 0)" by blast
  then have d: "length (issued (snd (onChange luum_camera setting_a answers_400 (JString ''200'') idle))) = 1"
    by (simp add: ro i0)
  from sel a b c d show ?thesis by blast
qed

text \<open>
  A capture of web-simple is sent again after a failure: against a backend that answers
  every request with status 503, one call of \<open>captureImage\<close> sends four requests before
  it is rejected.
\<close>

theorem capture_retried_counterexample:
  "sent (snd (captureImage simple_axios always_503 (initial_state (Some [example_camera])))) = 4 \<and>
   fst (captureImage simple_axios always_503 (initial_state (Some [example_camera]))) =
     Inl (AxiosError (Failure ''ERR_BAD_RESPONSE'' (Some 503)))"
  by (simp add: captureImage_def simple_axios_def always_503_def initial_state_def example_camera_def
      isNetworkOrIdempotentRequestError_def Let_def eval_nat_numeral)

section \<open>The latest captures\<close>

lemma recurseFiles_dfs: "recurseFiles obj dir = filter is_jpeg (dfs_files obj dir)"
proof (induction obj dir rule: recurseFiles.induct)
  case (1 f d)
  show ?case by (simp add: is_jpeg_def)
next
  case (2 fname cs d)
  then show ?case by (simp add: filter_concat comp_def cong: map_cong)
qed

text \<open>
  Claim C7, amended. \<open>recurseFiles\<close> returns, in their order, the entries of the
  depth-first left-to-right listing \<open>dfs_files\<close> (in which a folder extends the path of
  its children by \<^verbatim>\<open>/\<close> and its name) whose mimetype is exactly \<^verbatim>\<open>image/jpeg\<close>, and no
  other entry. The listing of a fetched hierarchy starts at the children of the fetched
  folder with the empty path, so the name of the fetched folder is part of no path. For
  the fetched folder \<^verbatim>\<open>DCIM\<close> with \<^verbatim>\<open>a.jpg\<close> (mtime 100), \<^verbatim>\<open>b.png\<close> (200) and
  \<^verbatim>\<open>c.jpg\<close> (300) the latest files are \<^verbatim>\<open>c.jpg\<close> and then \<^verbatim>\<open>a.jpg\<close>, both at the
  empty path; they are at path \<^verbatim>\<open>/DCIM\<close> when that folder is a child of the fetched
  folder.
\<close>

theorem flatten_keeps_jpeg_only:
  "recurseFiles obj dir = filter is_jpeg (dfs_files obj dir) \<and>
   flatFiles folder = filter is_jpeg (concat (map (\<lambda>c. dfs_files c '''') (children folder))) \<and>
   latestFiles (Some scenario_b) = [('''', file_c), ('''', file_a)] \<and>
   latestFiles (Some dcim_under_root) = [(''/DCIM'', file_c), (''/DCIM'', file_a)]"
proof -
  have "flatFiles folder = filter is_jpeg (concat (map (\<lambda>c. dfs_files c '''') (children folder)))"
    by (simp add: flatFiles_def recurseFiles_dfs filter_concat comp_def)
  moreover have "latestFiles (Some scenario_b) = [('''', file_c), ('''', file_a)]"
    by (simp add: latestFiles_def flatFiles_def sortBy_def scenario_b_def file_a_def file_b_def
        file_c_def)
  moreover have "latestFiles (Some dcim_under_root) = [(''/DCIM'', file_c), (''/DCIM'', file_a)]"
    by (simp add: latestFiles_def flatFiles_def sortBy_def dcim_under_root_def file_a_def
        file_b_def file_c_def)
  ultimately show ?thesis using recurseFiles_dfs by blast
qed

text \<open>
  For the hierarchy of scenario B as it is written, the fetched folder \<^verbatim>\<open>DCIM\<close> with
  the three files, the paths of the latest files are not \<^verbatim>\<open>/DCIM\<close>.
\<close>

theorem scenario_b_paths_counterexample:
  "Folder.name scenario_b = ''DCIM'' \<and>
   children scenario_b = [FileNode file_a, FileNode file_b, FileNode file_c] \<and>
   latestFiles (Some scenario_b) \<noteq> [(''/DCIM'', file_c), (''/DCIM'', file_a)]"
  by (simp add: latestFiles_def flatFiles_def sortBy_def scenario_b_def file_a_def file_b_def
      file_c_def)

lemma filter_take_prefix:
  "filter P (take n xs) = take (length (filter P (take n xs))) (filter P xs)"
proof (induction xs arbitrary: n)
  case Nil
  then show ?case by simp
next
  case (Cons x xs)
  show ?case
  proof (cases n)
    case 0
    then show ?thesis by simp
  next
    case (Suc m)
    with Cons.IH[of m] show ?thesis by (cases "P x") simp_all
  qed
qed

text \<open>
  Claim C5, amended. The latest files are at most three, \<open>min 3 n\<close> of the \<open>n\<close> JPEG
  files of the hierarchy, in an order in which the mtime never increases. Entries with
  the same mtime appear in the reverse of their traversal order: the entries of mtime
  \<open>t\<close> among the latest files are an initial part of the reversed list of the entries of
  mtime \<open>t\<close> of the traversal.
\<close>

theorem latest_files_ranking:
  "length (latestFiles cameraFiles) \<le> 3 \<and>
   sorted (rev (map (\<lambda>e. mtime (snd e)) (latestFiles cameraFiles))) \<and>
   latestFiles None = [] \<and>
   length (latestFiles (Some folder)) = min 3 (length (flatFiles folder)) \<and>
   set (latestFiles (Some folder)) \<subseteq> set (flatFiles folder) \<and>
   filter (\<lambda>e. mtime (snd e) = t) (latestFiles (Some folder)) =
     take (length (filter (\<lambda>e. mtime (snd e) = t) (latestFiles (Some folder))))
       (rev (filter (\<lambda>e. mtime (snd e) = t) (flatFiles folder)))"
proof -
  let ?key = "\<lambda>e::string \<times> File. mtime (snd e)"
  define ranked where "ranked = (case cameraFiles of
      Some folder \<Rightarrow> sortBy (flatFiles folder) ?key | None \<Rightarrow> [])"
  have "sorted (map ?key ranked)"
    by (simp add: ranked_def sortBy_def split: option.splits)
  then have "sorted (rev (map ?key (rev ranked)))" by (simp add: rev_map)
  then have "sorted (rev (take 3 (map ?key (rev ranked))))"
    by (simp only: rev_take sorted_wrt_drop)
  then have desc: "sorted (rev (map ?key (latestFiles cameraFiles)))"
    by (simp add: latestFiles_def ranked_def take_map)
  have len: "length (latestFiles (Some folder)) = min 3 (length (flatFiles folder))"
    by (simp add: latestFiles_def sortBy_def min.commute)
  have sub: "set (latestFiles (Some folder)) \<subseteq> set (flatFiles folder)"
    using set_take_subset[of 3 "rev (sortBy (flatFiles folder) ?key)"]
    by (simp add: latestFiles_def sortBy_def)
  have stable: "filter (\<lambda>e. ?key e = t) (rev (sortBy (flatFiles folder) ?key)) =
      rev (filter (\<lambda>e. ?key e = t) (flatFiles folder))"
    by (simp add: sortBy_def rev_filter[symmetric] sort_key_stable)
  have ties: "filter (\<lambda>e. ?key e = t) (latestFiles (Some folder)) =
     take (length (filter (\<lambda>e. ?key e = t) (latestFiles (Some folder))))
       (rev (filter (\<lambda>e. ?key e = t) (flatFiles folder)))"
    unfolding stable[symmetric]
    using filter_take_prefix[of "\<lambda>e. ?key e = t" 3 "rev (sortBy (flatFiles folder) ?key)"]
    by (simp add: latestFiles_def)
  have "length (latestFiles cameraFiles) \<le> 3" by (simp add: latestFiles_def)
  moreover have "latestFiles None = []" by (simp add: latestFiles_def)
  ultimately show ?thesis using desc len sub ties by blast
qed

text \<open>The folder \<^verbatim>\<open>DCIM\<close> of scenario B under a storage root.\<close>

theorem latest_files_ranking_witness:
  "latestFiles (Some dcim_under_root) = [(''/DCIM'', file_c), (''/DCIM'', file_a)] \<and>
   set (latestFiles (Some dcim_under_root)) \<subseteq> set (flatFiles dcim_under_root) \<and>
   length (latestFiles (Some dcim_under_root)) \<le> 3"
proof -
  have e: "latestFiles (Some dcim_under_root) = [(''/DCIM'', file_c), (''/DCIM'', file_a)]"
    by (simp add: latestFiles_def flatFiles_def sortBy_def dcim_under_root_def file_a_def file_b_def file_c_def)
  from latest_files_ranking[of "Some dcim_under_root" dcim_under_root 100] e show ?thesis by blast
qed

text \<open>
  Ties are not in traversal order: \<^verbatim>\<open>a.jpg\<close> is traversed before \<^verbatim>\<open>d.jpg\<close>, both have
  mtime 100, and \<^verbatim>\<open>d.jpg\<close> comes first among the latest files.
\<close>

theorem latest_files_ties_counterexample:
  "flatFiles tie_folder = [(''/DCIM'', file_a), (''/DCIM'', file_d)] \<and>
   mtime file_a = mtime file_d \<and>
   latestFiles (Some tie_folder) = [(''/DCIM'', file_d), (''/DCIM'', file_a)]"
  by (simp add: latestFiles_def flatFiles_def sortBy_def tie_folder_def file_a_def file_d_def)

section \<open>The order of the settings\<close>

lemma findIndex_from_absent:
  "\<forall>x\<in>set xs. \<not> P x \<Longrightarrow> findIndex_from xs P i = - 1"
  by (induction xs arbitrary: i) simp_all

lemma findIndex_from_present:
  "\<exists>x\<in>set xs. P x \<Longrightarrow> i \<le> findIndex_from xs P i"
proof (induction xs arbitrary: i)
  case Nil
  then show ?case by simp
next
  case (Cons x xs)
  show ?case
  proof (cases "P x")
    case True
    then show ?thesis by simp
  next
    case False
    with Cons.prems have "\<exists>y\<in>set xs. P y" by simp
    from Cons.IH[OF this, of "i + 1"] False show ?thesis by simp
  qed
qed

lemma indexOf_absent: "x \<notin> set xs \<Longrightarrow> indexOf xs x = - 1"
  unfolding indexOf_def findIndex_def by (rule findIndex_from_absent) auto

lemma indexOf_present: "x \<in> set xs \<Longrightarrow> 0 \<le> indexOf xs x"
  unfolding indexOf_def findIndex_def by (rule findIndex_from_present) blast

lemma findIndex_from_nth:
  "distinct (map f xs) \<Longrightarrow> j < length xs \<Longrightarrow>
   findIndex_from xs (\<lambda>t. f t = f (xs ! j)) i = i + int j"
proof (induction xs arbitrary: i j)
  case Nil
  then show ?case by simp
next
  case (Cons x xs)
  show ?case
  proof (cases j)
    case 0
    then show ?thesis by simp
  next
    case (Suc k)
    with Cons.prems have k: "k < length xs" and d: "distinct (map f xs)" by simp_all
    from k have "f (xs ! k) \<in> f ` set xs" by simp
    with Cons.prems(1) have "f (xs ! k) \<noteq> f x" by auto
    with Cons.IH[OF d k, of "i + 1"] Suc show ?thesis by simp
  qed
qed

lemma sorted_positions:
  assumes "distinct (map f xs)"
  shows "sorted (map (\<lambda>s. findIndex xs (\<lambda>t. f t = f s)) xs)"
proof -
  have "map (\<lambda>s. findIndex xs (\<lambda>t. f t = f s)) xs = map int [0..<length xs]"
  proof (rule nth_equalityI)
    show "length (map (\<lambda>s. findIndex xs (\<lambda>t. f t = f s)) xs) = length (map int [0..<length xs])"
      by simp
  next
    fix j assume "j < length (map (\<lambda>s. findIndex xs (\<lambda>t. f t = f s)) xs)"
    then have j: "j < length xs" by simp
    with findIndex_from_nth[OF assms j, of 0]
    show "map (\<lambda>s. findIndex xs (\<lambda>t. f t = f s)) xs ! j = map int [0..<length xs] ! j"
      by (simp add: findIndex_def)
  qed
  moreover have "sorted (map int [0..<length xs])"
    by (simp add: sorted_map sorted_wrt_map)
  ultimately show ?thesis by simp
qed

lemma partition_of_sorted:
  fixes key :: "'a \<Rightarrow> int \<times> int"
  assumes "sorted (map key xs)"
    and "\<And>x. P x \<Longrightarrow> fst (key x) \<le> 0"
    and "\<And>x. \<not> P x \<Longrightarrow> fst (key x) = 1"
  shows "xs = filter P xs @ filter (\<lambda>x. \<not> P x) xs"
  using assms(1)
proof (induction xs)
  case Nil
  then show ?case by simp
next
  case (Cons x xs)
  then have IH: "xs = filter P xs @ filter (\<lambda>x. \<not> P x) xs" by simp
  show ?case
  proof (cases "P x")
    case True
    with IH show ?thesis by simp
  next
    case False
    have "\<not> P y" if "y \<in> set xs" for y
    proof
      assume "P y"
      from Cons.prems that have "key x \<le> key y" by simp
      then have "fst (key x) \<le> fst (key y)" by (auto simp: less_eq_prod_def)
      with assms(2)[OF \<open>P y\<close>] assms(3)[OF False] show False by simp
    qed
    then have "filter P xs = []" and "filter (\<lambda>x. \<not> P x) xs = xs"
      by (simp_all add: filter_empty_conv filter_id_conv)
    with False show ?thesis by simp
  qed
qed

lemma sortedSettings_key:
  "sortedSettings settings favorites = sort_key (setting_key settings favorites) settings"
  by (simp add: sortedSettings_def sortBy_def setting_key_def[abs_def])

lemma key_favorite: "isFavorite favorites s \<Longrightarrow> fst (setting_key settings favorites s) \<le> 0"
  using indexOf_present[of "path s" favorites] by (simp add: setting_key_def isFavorite_def)

lemma key_other: "\<not> isFavorite favorites s \<Longrightarrow> fst (setting_key settings favorites s) = 1"
  by (simp add: setting_key_def isFavorite_def indexOf_absent)

lemma favorites_first:
  "sortedSettings settings favorites =
     filter (isFavorite favorites) (sortedSettings settings favorites) @
     filter (\<lambda>s. \<not> isFavorite favorites s) (sortedSettings settings favorites)"
proof (rule partition_of_sorted[where key = "setting_key settings favorites"])
  show "sorted (map (setting_key settings favorites) (sortedSettings settings favorites))"
    by (simp add: sortedSettings_key)
qed (rule key_favorite, assumption, rule key_other, assumption)

lemma others_in_fetch_order:
  assumes "distinct (map id_f settings)"
  shows "filter (\<lambda>s. \<not> isFavorite favorites s) (sortedSettings settings favorites) =
         filter (\<lambda>s. \<not> isFavorite favorites s) settings"
proof -
  let ?Q = "\<lambda>s. \<not> isFavorite favorites s"
  let ?pos = "\<lambda>s. findIndex settings (\<lambda>t. id_f t = id_f s)"
  have "sorted (map ?pos (filter ?Q settings))"
    by (rule sorted_filter) (rule sorted_positions[OF assms])
  then have one: "sorted (map (\<lambda>s. (1::int, ?pos s)) (filter ?Q settings))"
    by (simp add: sorted_map sorted_wrt_map less_eq_prod_def)
  have keys: "map (setting_key settings favorites) (filter ?Q settings) =
      map (\<lambda>s. (1::int, ?pos s)) (filter ?Q settings)"
    by (rule map_cong) (simp_all add: setting_key_def isFavorite_def indexOf_absent)
  from one have "sorted (map (setting_key settings favorites) (filter ?Q settings))"
    unfolding keys .
  then have "sort_key (setting_key settings favorites) (filter ?Q settings) = filter ?Q settings"
    by (rule sort_key_id_if_sorted)
  then show ?thesis by (simp add: sortedSettings_key filter_sort)
qed

lemma favorites_by_descending_index:
  "sorted (map (\<lambda>s. - indexOf favorites (path s))
     (filter (isFavorite favorites) (sortedSettings settings favorites)))"
proof -
  have "sorted (map (setting_key settings favorites) (sortedSettings settings favorites))"
    by (simp add: sortedSettings_key)
  then have "sorted (map (setting_key settings favorites)
      (filter (isFavorite favorites) (sortedSettings settings favorites)))"
    by (rule sorted_filter)
  then have "sorted (map fst (map (setting_key settings favorites)
      (filter (isFavorite favorites) (sortedSettings settings favorites))))"
    by (simp add: sorted_map sorted_wrt_map less_eq_prod_def) (erule sorted_wrt_mono_rel[rotated], auto)
  then show ?thesis by (simp add: setting_key_def comp_def)
qed

text \<open>
  Claim C3, amended. The rendered list is a rearrangement of the fetched settings in
  which every setting whose path is a favorite comes before every other setting. The
  favorites are ordered by descending position of their path in the list of favorites
  (the path added last comes first). When the ids of the fetched settings are distinct,
  the settings that are no favorites keep their fetch order.
\<close>

theorem settings_display_order:
  "sortedSettings settings favorites =
     filter (isFavorite favorites) (sortedSettings settings favorites) @
     filter (\<lambda>s. \<not> isFavorite favorites s) (sortedSettings settings favorites) \<and>
   set (sortedSettings settings favorites) = set settings \<and>
   length (sortedSettings settings favorites) = length settings \<and>
   sorted (map (\<lambda>s. - indexOf favorites (path s))
     (filter (isFavorite favorites) (sortedSettings settings favorites))) \<and>
   (distinct (map id_f settings) \<longrightarrow>
    filter (\<lambda>s. \<not> isFavorite favorites s) (sortedSettings settings favorites) =
    filter (\<lambda>s. \<not> isFavorite favorites s) settings)"
proof -
  have "set (sortedSettings settings favorites) = set settings"
    and "length (sortedSettings settings favorites) = length settings"
    by (simp_all add: sortedSettings_key)
  with favorites_first[of settings favorites] favorites_by_descending_index[of favorites settings]
    others_in_fetch_order[of settings favorites]
  show ?thesis by blast
qed

text \<open>Two settings, the second of which is the one favorite.\<close>

theorem settings_display_order_witness:
  "distinct (map id_f [setting_a, setting_b]) \<and>
   sortedSettings [setting_a, setting_b] [path setting_b] = [setting_b, setting_a] \<and>
   filter (\<lambda>s. \<not> isFavorite [path setting_b] s) (sortedSettings [setting_a, setting_b] [path setting_b]) =
     filter (\<lambda>s. \<not> isFavorite [path setting_b] s) [setting_a, setting_b]"
proof -
  have d: "distinct (map id_f [setting_a, setting_b])"
    by (simp add: setting_a_def setting_b_def)
  have e: "sortedSettings [setting_a, setting_b] [path setting_b] = [setting_b, setting_a]"
    by (simp add: sortedSettings_def sortBy_def indexOf_def findIndex_def setting_a_def setting_b_def)
  from settings_display_order[of "[setting_a, setting_b]" "[path setting_b]"] d
  have "filter (\<lambda>s. \<not> isFavorite [path setting_b] s) (sortedSettings [setting_a, setting_b] [path setting_b]) =
     filter (\<lambda>s. \<not> isFavorite [path setting_b] s) [setting_a, setting_b]"
    by blast
  with d e show ?thesis by blast
qed

text \<open>
  The order of the list of favorites decides the order of the favorites, and the fetch
  order does not: with both settings favorites, listed in fetch order, the second
  setting is rendered first; with the favorites listed the other way round, the first.
\<close>

theorem settings_display_order_counterexample:
  "sortedSettings [setting_a, setting_b] [path setting_a, path setting_b] = [setting_b, setting_a] \<and>
   sortedSettings [setting_a, setting_b] [path setting_b, path setting_a] = [setting_a, setting_b]"
  by (simp add: sortedSettings_def sortBy_def indexOf_def findIndex_def setting_a_def setting_b_def)

section \<open>Updating a setting\<close>

text \<open>
  The update callback, case by case. It increments \<open>triggerRefresh\<close>, the dependency of
  the effect that fetches the settings, by exactly one when the PUT was issued and
  either resolved or was rejected with status 500, and leaves it unchanged otherwise.
  A rejection with any other status is thrown again as it is. A rejection without
  response does not reach \<^verbatim>\<open>throw e\<close>: reading \<^verbatim>\<open>resp.status\<close> raises a \<^verbatim>\<open>TypeError\<close>,
  and that is what the caller receives. The PUT is issued exactly when the setting is
  not read-only.
\<close>

theorem update_refetch_iff_tolerated:
  "triggerRefresh (snd (onChange camera setting backend newVal s)) =
     triggerRefresh s +
       (if readonly setting = 0 \<and>
           tolerated (backend (port camera) (setting\<lparr>value_f := newVal\<rparr>))
        then 1 else 0) \<and>
   fst (onChange camera setting backend newVal s) =
     (if readonly setting \<noteq> 0 then Inr ()
      else case backend (port camera) (setting\<lparr>value_f := newVal\<rparr>) of
             Resolved \<Rightarrow> Inr ()
           | Rejected e \<Rightarrow>
               (case response_status e of
                  None \<Rightarrow> Inl TypeError
                | Some status \<Rightarrow> if status = 500 then Inr () else Inl (AxiosError e))) \<and>
   issued (snd (onChange camera setting backend newVal s)) =
     issued s @
       (if readonly setting = 0
        then [PutSetting (port camera) (setting\<lparr>value_f := newVal\<rparr>)
                (backend (port camera) (setting\<lparr>value_f := newVal\<rparr>))]
        else [])"
proof (cases "readonly setting = 0")
  case False
  then show ?thesis by (simp add: onChange_def)
next
  case True
  show ?thesis
  proof (cases "backend (port camera) (setting\<lparr>value_f := newVal\<rparr>)")
    case Resolved
    with True show ?thesis
      by (simp add: onChange_def axios_put_def setLoading_def setTriggerRefresh_def Let_def)
  next
    case (Rejected e)
    show ?thesis
    proof (cases "response_status e")
      case None
      with True Rejected show ?thesis
        by (simp add: onChange_def axios_put_def setLoading_def setTriggerRefresh_def Let_def)
    next
      case (Some status)
      with True Rejected show ?thesis
        by (cases "status = 500")
           (simp_all add: onChange_def axios_put_def setLoading_def setTriggerRefresh_def Let_def)
    qed
  qed
qed

text \<open>Scenario C, a rejection with status 500, and scenario D, one with status 400.\<close>

theorem update_refetch_iff_tolerated_witness:
  "fst (onChange luum_camera setting_a answers_500 (JString ''200'') idle) = Inr () \<and>
   triggerRefresh (snd (onChange luum_camera setting_a answers_500 (JString ''200'') idle)) = 1 \<and>
   fst (onChange luum_camera setting_a answers_400 (JString ''200'') idle) =
     Inl (AxiosError (Failure ''ERR_BAD_REQUEST'' (Some 400))) \<and>
   triggerRefresh (snd (onChange luum_camera setting_a answers_400 (JString ''200'') idle)) = 0"
proof -
  have ro: "readonly setting_a = 0" by (simp add: setting_a_def)
  have t0: "triggerRefresh idle = 0" by (simp add: idle_def)
  note t5 = update_refetch_iff_tolerated[of luum_camera setting_a answers_500 "JString ''200''" idle]
  note t4 = update_refetch_iff_tolerated[of luum_camera setting_a answers_400 "JString ''200''" idle]
  from t5 have a: "triggerRefresh (snd (onChange luum_camera setting_a answers_500 (JString ''200'') idle)) = 1"
    by (simp add: ro t0 answers_500_def)
  from t4 have b: "triggerRefresh (snd (onChange luum_camera setting_a answers_400 (JString ''200'') idle)) = 0"
    by (simp add: ro t0 answers_400_def)
  from t5 have c: "fst (onChange luum_camera setting_a answers_500 (JString ''200'') idle) = Inr ()"
    by (simp add: ro answers_500_def)
  from t4 have d: "fst (onChange luum_camera setting_a answers_400 (JString ''200'') idle) =
      Inl (AxiosError (Failure ''ERR_BAD_REQUEST'' (Some 400)))"
    by (simp add: ro answers_400_def)
  from a b c d show ?thesis by blast
qed

text \<open>
  Claim C4. The claim holds of every update but one kind: when the PUT fails without a
  response, the error does not propagate to the caller. For a network failure of the
  PUT of the setting \<^verbatim>\<open>iso\<close> the callback issues the one request, starts no new
  fetch, and returns a \<^verbatim>\<open>TypeError\<close> in place of the error of axios.
\<close>

theorem update_without_response_raises_TypeError:
  "no_response (port luum_camera) (setting_a\<lparr>value_f := JString ''200''\<rparr>) =
     Rejected (Failure ''ERR_NETWORK'' None) \<and>
   fst (onChange luum_camera setting_a no_response (JString ''200'') idle) = Inl TypeError \<and>
   fst (onChange luum_camera setting_a no_response (JString ''200'') idle) \<noteq>
     Inl (AxiosError (Failure ''ERR_NETWORK'' None)) \<and>
   triggerRefresh (snd (onChange luum_camera setting_a no_response (JString ''200'') idle)) = 0 \<and>
   length (issued (snd (onChange luum_camera setting_a no_response (JString ''200'') idle))) = 1"
  by (simp add: onChange_def axios_put_def setLoading_def no_response_def setting_a_def idle_def
      Let_def)

text \<open>
  Claim C9. For a setting whose \<open>readonly\<close> is set, whatever its type, the update
  callback returns without a change of state and without a request, and every control
  that \<open>renderSetting\<close> returns is disabled; for the types 2, 4, 5, 6 and 8, which
  have a control, it is rendered and disabled.
\<close>

theorem readonly_update_rejected:
  assumes "readonly setting \<noteq> 0"
  shows "onChange camera setting backend newVal s = (Inr (), s) \<and>
         issued (snd (onChange camera setting backend newVal s)) = issued s \<and>
         (\<forall>el. renderSetting setting = Some el \<longrightarrow> disabled el \<noteq> Some False) \<and>
         (type_f setting \<in> {2, 4, 5, 6, 8} \<longrightarrow>
            (\<exists>el. renderSetting setting = Some el \<and> disabled el = Some True))"
proof -
  from assms have a: "onChange camera setting backend newVal s = (Inr (), s)"
    by (simp add: onChange_def)
  have b: "\<forall>el. renderSetting setting = Some el \<longrightarrow> disabled el \<noteq> Some False"
    using assms by (auto simp: renderSetting_def split: if_splits)
  have c: "type_f setting \<in> {2, 4, 5, 6, 8} \<longrightarrow>
      (\<exists>el. renderSetting setting = Some el \<and> disabled el = Some True)"
    using assms by (auto simp: renderSetting_def)
  from a b c show ?thesis by simp
qed

text \<open>A read-only text setting.\<close>

theorem readonly_update_rejected_witness:
  "readonly setting_b \<noteq> 0 \<and>
   onChange luum_camera setting_b answers_500 (JString ''80%'') idle = (Inr (), idle) \<and>
   renderSetting setting_b = Some (TextField True (JString ''75%''))"
proof -
  have ro: "readonly setting_b \<noteq> 0" by (simp add: setting_b_def)
  from readonly_update_rejected[OF ro, of luum_camera answers_500 "JString ''80%''" idle]
  have a: "onChange luum_camera setting_b answers_500 (JString ''80%'') idle = (Inr (), idle)"
    by blast
  have r: "renderSetting setting_b = Some (TextField True (JString ''75%''))"
    by (simp add: renderSetting_def setting_b_def)
  from ro a r show ?thesis by blast
qed

end
